theory Spec2Isabelle
  imports Complex_Main "HOL-Library.Multiset" "HOL-Library.Product_Lexorder"
begin

section \<open>Shared data model\<close>

text \<open>
  The development embeds the geometry projection pipeline of class \<open>Projection\<close> in
  \<^verbatim>\<open>lib/cartopy/crs.py\<close>: \<open>project_geometry\<close> and its handlers,
  \<open>_project_linear_ring\<close>, \<open>_project_polygon\<close>, \<open>_attach_lines_to_boundary\<close>,
  \<open>_rings_to_multi_polygon\<close>, and the helpers \<open>_BoundaryPoint\<close> and \<open>_find_first_ge\<close>.
  A leading underscore of a Python name is dropped, since an Isabelle name cannot start
  with one.

  Coordinates are pairs of real numbers: the floating point numbers of the source are
  idealised, and a NaN coordinate has no counterpart. A line string is the list of its
  coordinates. The operations of the geometry library (shapely), of numpy and of the line
  clipper (\<open>cartopy.trace.project_linear\<close>) are not part of the source file; they are
  parameters of the definitions below unless stated otherwise.
\<close>

type_synonym coord = "real \<times> real"
type_synonym line = "coord list"

text \<open>The Python exceptions the modelled code can raise.\<close>

datatype error = TypeError | ValueError | IndexError | RuntimeError

section \<open>The dispatcher: \<open>project_geometry\<close>\<close>

text \<open>
  The \<open>src_crs\<close> argument is \<open>None\<close>, an instance of \<open>CRS\<close>, or any other Python
  value.
\<close>

datatype ('crs, 'x) src_arg = PyNone | IsCRS 'crs | NotCRS 'x

text \<open>The class attribute \<open>_method_map\<close>: a dictionary from \<open>geom_type\<close> to a method name.\<close>

definition method_map :: "string \<rightharpoonup> string" where
  "method_map = map_of
     [(''Point'', ''_project_point''),
      (''LineString'', ''_project_line_string''),
      (''LinearRing'', ''_project_linear_ring''),
      (''Polygon'', ''_project_polygon''),
      (''MultiPoint'', ''_project_multipoint''),
      (''MultiLineString'', ''_project_multiline''),
      (''MultiPolygon'', ''_project_multipolygon'')]"

text \<open>
  \<open>project_geometry\<close>. The parameter \<open>as_geodetic\<close> is the value of
  \<open>self.as_geodetic()\<close>, \<open>getattr_self\<close> looks a method of \<open>self\<close> up by its name, and
  \<open>geom_type\<close> reads the attribute of that name of a geometry.
\<close>

definition project_geometry ::
  "'crs \<Rightarrow> (string \<Rightarrow> 'g \<Rightarrow> 'crs \<Rightarrow> 'r) \<Rightarrow> ('g \<Rightarrow> string) \<Rightarrow> 'g \<Rightarrow> ('crs, 'x) src_arg
     \<Rightarrow> error + 'r" where
  "project_geometry as_geodetic getattr_self geom_type geometry src_crs =
     (case (case src_crs of
              PyNone \<Rightarrow> Inr as_geodetic
            | IsCRS c \<Rightarrow> Inr c
            | NotCRS x \<Rightarrow> Inl TypeError) of
        Inl e \<Rightarrow> Inl e
      | Inr src \<Rightarrow>
          (case method_map (geom_type geometry) of
             None \<Rightarrow> Inl ValueError
           | Some method_name \<Rightarrow>
               if method_name = [] then Inl ValueError
               else Inr (getattr_self method_name geometry src)))"

text \<open>The seven kinds of the claim.\<close>

definition supported_kinds :: "string set" where
  "supported_kinds = {''Point'', ''LineString'', ''LinearRing'', ''Polygon'',
     ''MultiPoint'', ''MultiLineString'', ''MultiPolygon''}"

section \<open>The handlers of the multi-part geometries\<close>

text \<open>
  What a multi-part handler returns: one of the three multi-part geometries of shapely
  (given by the list of its parts) or, for \<open>_project_multiline\<close>, the empty Python list
  \<open>[]\<close>.
\<close>

datatype ('pt, 'ln, 'pg) projected =
    MultiPoint "'pt list"
  | MultiLineString "'ln list"
  | MultiPolygon "'pg list"
  | PyEmptyList

text \<open>
  \<open>_project_multipoint\<close>; \<open>project_point\<close> stands for \<open>self._project_point\<close>, which
  returns one point for every point.
\<close>

definition project_multipoint ::
  "('p \<Rightarrow> 'crs \<Rightarrow> 'pt) \<Rightarrow> 'p list \<Rightarrow> 'crs \<Rightarrow> ('pt, 'ln, 'pg) projected" where
  "project_multipoint project_point geometry_geoms src_crs =
     (let geoms = map (\<lambda>geom. project_point geom src_crs) geometry_geoms
      in if geoms \<noteq> [] then MultiPoint geoms else MultiPoint [])"

text \<open>
  The loop of \<open>_project_multiline\<close> and of \<open>_project_multipolygon\<close>: \<open>r\<close> is the projected
  member, a multi-part geometry given by its parts; it is true in Python when it is not
  empty, and then its parts are appended to \<open>geoms\<close>.
\<close>

fun extend_loop :: "('m \<Rightarrow> 'crs \<Rightarrow> 'a list) \<Rightarrow> 'm list \<Rightarrow> 'crs \<Rightarrow> 'a list \<Rightarrow> 'a list" where
  "extend_loop project_member [] src_crs geoms = geoms"
| "extend_loop project_member (geom # rest) src_crs geoms =
     (let r = project_member geom src_crs
      in if r \<noteq> [] then extend_loop project_member rest src_crs (geoms @ r)
         else extend_loop project_member rest src_crs geoms)"

text \<open>\<open>_project_multiline\<close>; \<open>project_line_string\<close> stands for \<open>self._project_line_string\<close>.\<close>

definition project_multiline ::
  "('l \<Rightarrow> 'crs \<Rightarrow> 'ln list) \<Rightarrow> 'l list \<Rightarrow> 'crs \<Rightarrow> ('pt, 'ln, 'pg) projected" where
  "project_multiline project_line_string geometry_geoms src_crs =
     (let geoms = extend_loop project_line_string geometry_geoms src_crs []
      in if geoms \<noteq> [] then MultiLineString geoms else PyEmptyList)"

text \<open>\<open>_project_multipolygon\<close>; \<open>project_polygon\<close> stands for \<open>self._project_polygon\<close>.\<close>

definition project_multipolygon ::
  "('q \<Rightarrow> 'crs \<Rightarrow> 'pg list) \<Rightarrow> 'q list \<Rightarrow> 'crs \<Rightarrow> ('pt, 'ln, 'pg) projected" where
  "project_multipolygon project_polygon geometry_geoms src_crs =
     (let geoms = extend_loop project_polygon geometry_geoms src_crs []
      in if geoms \<noteq> [] then MultiPolygon geoms else MultiPolygon [])"

section \<open>The boundary stitcher: \<open>_attach_lines_to_boundary\<close>\<close>

subsection \<open>Boundary points\<close>

text \<open>
  Class \<open>_BoundaryPoint\<close> has the fields \<open>distance\<close>, \<open>kind\<close> and \<open>data\<close>. The flag
  \<open>kind\<close> is the tag of a union: where it is true \<open>data\<close> is a point of the boundary,
  where it is false \<open>data\<close> is the triple \<open>(i, 'first' | 'last', coordinate)\<close> of the end of
  line string \<open>i\<close>. The two cases are the two constructors, and \<open>kind\<close> is read off the
  constructor.
\<close>

datatype BoundaryPoint =
    BoundaryVertex real coord
  | LineEnd real nat string coord

fun distance :: "BoundaryPoint \<Rightarrow> real" where
  "distance (BoundaryVertex d p) = d"
| "distance (LineEnd d i tg c) = d"

fun kind :: "BoundaryPoint \<Rightarrow> bool" where
  "kind (BoundaryVertex d p) = True"
| "kind (LineEnd d i tg c) = False"

text \<open>
  A boundary ring (\<open>self.cw_boundary\<close> or \<open>self.ccw_boundary\<close>): its coordinates, and the
  two operations of the geometry library on it that the stitcher calls. \<open>project\<close> is the
  distance along the ring of the point of the ring nearest to the given one, and
  \<open>interpolate\<close> is the point of the ring at a distance along it.
\<close>

record boundary =
  coords :: "coord list"
  project :: "coord \<Rightarrow> real"
  interpolate :: "real \<Rightarrow> coord"

subsection \<open>The events and their order\<close>

text \<open>
  The first loop: the two ends of line string number \<open>i\<close>, for every line string.
  \<open>line_string.coords[0]\<close> raises \<open>IndexError\<close> on a line string with no coordinates.
\<close>

fun line_ends :: "(coord \<Rightarrow> real) \<Rightarrow> nat \<Rightarrow> line list \<Rightarrow> error + BoundaryPoint list" where
  "line_ends boundary_distance i [] = Inr []"
| "line_ends boundary_distance i (line_string # rest) =
     (case line_string of
        [] \<Rightarrow> Inl IndexError
      | c # cs \<Rightarrow>
          (case line_ends boundary_distance (Suc i) rest of
             Inl e \<Rightarrow> Inl e
           | Inr things \<Rightarrow>
               Inr (LineEnd (boundary_distance c) i ''first'' c
                    # LineEnd (boundary_distance (last line_string)) i ''last''
                        (last line_string)
                    # things)))"

text \<open>The second loop: the vertices of the boundary, \<open>boundary.coords[:-1]\<close>.\<close>

definition boundary_vertices :: "boundary \<Rightarrow> BoundaryPoint list" where
  "boundary_vertices b = map (\<lambda>xy. BoundaryVertex (project b xy) xy) (butlast (coords b))"

text \<open>
  \<open>edge_things\<close> after \<open>edge_things.sort(key=lambda thing: (thing.distance, thing.kind))\<close>.
  Python compares the key tuples lexicographically, with \<open>False < True\<close>, and its sort is
  stable, as \<open>sort_key\<close> is.
\<close>

definition sorted_edge_things :: "boundary \<Rightarrow> line list \<Rightarrow> error + BoundaryPoint list" where
  "sorted_edge_things b line_strings =
     (case line_ends (project b) 0 line_strings of
        Inl e \<Rightarrow> Inl e
      | Inr ends \<Rightarrow>
          Inr (sort_key (\<lambda>thing. (distance thing, kind thing)) (ends @ boundary_vertices b)))"

subsection \<open>Artificial boundary points\<close>

text \<open>
  The test of the third loop, for a previous thing that is not \<open>None\<close>: both are line
  ends and of the same line string.
\<close>

fun same_line :: "BoundaryPoint \<Rightarrow> BoundaryPoint \<Rightarrow> bool" where
  "same_line (LineEnd d i tg c) (LineEnd d' i' tg' c') = (i = i')"
| "same_line _ _ = False"

text \<open>\<open>list.index\<close>, which raises \<open>ValueError\<close> when the value is absent, and \<open>list.insert\<close>.\<close>

fun index_of :: "'a list \<Rightarrow> 'a \<Rightarrow> error + nat" where
  "index_of [] x = Inl ValueError"
| "index_of (y # ys) x =
     (if y = x then Inr 0
      else (case index_of ys x of Inl e \<Rightarrow> Inl e | Inr n \<Rightarrow> Inr (Suc n)))"

definition list_insert :: "nat \<Rightarrow> 'a \<Rightarrow> 'a list \<Rightarrow> 'a list" where
  "list_insert ind x xs = take ind xs @ x # drop ind xs"

text \<open>
  The third loop runs over a copy of \<open>edge_things\<close> (the second argument) and inserts into
  \<open>edge_things\<close> itself (the last argument).
\<close>

fun insert_midpoints ::
  "boundary \<Rightarrow> BoundaryPoint list \<Rightarrow> BoundaryPoint option \<Rightarrow> BoundaryPoint list
     \<Rightarrow> error + BoundaryPoint list" where
  "insert_midpoints b [] prev_thing edge_things = Inr edge_things"
| "insert_midpoints b (edge_thing # rest) None edge_things =
     insert_midpoints b rest (Some edge_thing) edge_things"
| "insert_midpoints b (edge_thing # rest) (Some prev_thing) edge_things =
     (if same_line edge_thing prev_thing then
        (let mid_dist = (distance edge_thing + distance prev_thing) * 0.5;
             mid_point = interpolate b mid_dist;
             new_thing = BoundaryVertex mid_dist mid_point
         in case index_of edge_things edge_thing of
              Inl e \<Rightarrow> Inl e
            | Inr ind \<Rightarrow> insert_midpoints b rest None (list_insert ind new_thing edge_things))
      else insert_midpoints b rest (Some edge_thing) edge_things)"

text \<open>The filter that drops the ends tagged \<open>'last'\<close>.\<close>

fun filter_last :: "BoundaryPoint \<Rightarrow> bool" where
  "filter_last (BoundaryVertex d p) = True"
| "filter_last (LineEnd d i tg c) = (tg = ''first'')"

subsection \<open>The traversal\<close>

text \<open>
  \<open>_find_first_ge\<close>: the loop returns the first element at a distance of at least \<open>x\<close>;
  after the loop \<open>a[0]\<close> is returned, which raises \<open>IndexError\<close> on the empty list.
\<close>

fun first_ge :: "BoundaryPoint list \<Rightarrow> real \<Rightarrow> BoundaryPoint option" where
  "first_ge [] x = None"
| "first_ge (v # a) x = (if distance v \<ge> x then Some v else first_ge a x)"

definition find_first_ge :: "BoundaryPoint list \<Rightarrow> real \<Rightarrow> error + BoundaryPoint" where
  "find_first_ge a x =
     (case first_ge a x of
        Some v \<Rightarrow> Inr v
      | None \<Rightarrow> (case a of [] \<Rightarrow> Inl IndexError | v # _ \<Rightarrow> Inr v))"

text \<open>
  The variables of the traversal. \<open>remaining_ls\<close> is a dictionary, kept with its insertion
  order since \<open>popitem\<close> removes the entry inserted last.
\<close>

record state =
  edge_things :: "BoundaryPoint list"
  remaining_ls :: "(nat \<times> line) list"
  current_ls :: line
  added_linestring :: "nat set"

text \<open>
  One iteration of the inner loop \<open>while True\<close>, for the path that started at line string
  \<open>i\<close>: it raises, goes on to the next iteration, or leaves the loop by \<open>break\<close>.
\<close>

datatype 'a step = Next 'a | Closed 'a

definition path_step ::
  "(coord \<Rightarrow> real) \<Rightarrow> line list \<Rightarrow> nat \<Rightarrow> state \<Rightarrow> error + state step" where
  "path_step boundary_distance line_strings i s =
     (if current_ls s = [] then Inl IndexError
      else
        (case find_first_ge (edge_things s) (boundary_distance (last (current_ls s))) of
           Inl e \<Rightarrow> Inl e
         | Inr next_thing \<Rightarrow>
             (let s1 = s\<lparr>edge_things := remove1 next_thing (edge_things s)\<rparr>
              in case next_thing of
                   BoundaryVertex d boundary_point \<Rightarrow>
                     Inr (Next (s1\<lparr>current_ls := current_ls s @ [boundary_point]\<rparr>))
                 | LineEnd d j tg xy \<Rightarrow>
                     if j = i then Inr (Closed s1)
                     else if j < length line_strings then
                       (let s2 = s1\<lparr>remaining_ls :=
                                      filter (\<lambda>(k, l). k \<noteq> j) (remaining_ls s),
                                    current_ls := current_ls s @ line_strings ! j\<rparr>
                        in if j \<notin> added_linestring s
                           then Inr (Next (s2\<lparr>added_linestring :=
                                                insert j (added_linestring s)\<rparr>))
                           else Inl RuntimeError)
                     else Inl IndexError)))"

text \<open>Every iteration removes one element of \<open>edge_things\<close>, so the inner loop ends.\<close>

lemma first_ge_mem: "first_ge a x = Some v \<Longrightarrow> v \<in> set a"
  by (induction a) (auto split: if_splits)

lemma find_first_ge_mem: "find_first_ge a x = Inr v \<Longrightarrow> v \<in> set a"
  by (auto simp: find_first_ge_def dest: first_ge_mem split: option.splits list.splits)

lemma path_step_cases:
  assumes "path_step bd ls i s = Inr r"
  obtains
    (vertex) d p where
      "find_first_ge (edge_things s) (bd (last (current_ls s))) = Inr (BoundaryVertex d p)"
      "r = Next (s\<lparr>edge_things := remove1 (BoundaryVertex d p) (edge_things s),
                       current_ls := current_ls s @ [p]\<rparr>)"
  | (closed) d tg xy where
      "find_first_ge (edge_things s) (bd (last (current_ls s))) = Inr (LineEnd d i tg xy)"
      "r = Closed (s\<lparr>edge_things := remove1 (LineEnd d i tg xy) (edge_things s)\<rparr>)"
  | (line) d j tg xy where
      "find_first_ge (edge_things s) (bd (last (current_ls s))) = Inr (LineEnd d j tg xy)"
      "j \<noteq> i" "j < length ls" "j \<notin> added_linestring s"
      "r = Next (s\<lparr>edge_things := remove1 (LineEnd d j tg xy) (edge_things s),
                       remaining_ls := filter (\<lambda>(k, l). k \<noteq> j) (remaining_ls s),
                       current_ls := current_ls s @ ls ! j,
                       added_linestring := insert j (added_linestring s)\<rparr>)"
proof (cases "find_first_ge (edge_things s) (bd (last (current_ls s)))")
  case (Inl e)
  with assms show ?thesis
    by (simp add: path_step_def split: if_splits)
next
  case (Inr next_thing)
  show ?thesis
  proof (cases next_thing)
    case (BoundaryVertex d p)
    with Inr assms show ?thesis
      by (intro vertex [of d p]) (auto simp: path_step_def split: if_splits)
  next
    case (LineEnd d j tg xy)
    with Inr assms show ?thesis
      by (cases "j = i")
        (auto simp: path_step_def Let_def split: if_splits intro: closed line)
  qed
qed

lemma path_step_removes_one:
  assumes "path_step bd ls i s = Inr r"
  shows "\<exists>v \<in> set (edge_things s). \<forall>s'. r = Next s' \<or> r = Closed s'
           \<longrightarrow> edge_things s' = remove1 v (edge_things s)"
  using assms
  by (cases rule: path_step_cases) (auto dest: find_first_ge_mem)

lemma path_step_Next_length:
  assumes "path_step bd ls i s = Inr (Next s')"
  shows "length (edge_things s') < length (edge_things s)"
proof -
  from path_step_removes_one [OF assms]
  obtain v where "v \<in> set (edge_things s)" "edge_things s' = remove1 v (edge_things s)"
    by auto
  moreover from this have "0 < length (edge_things s)"
    by (auto simp: length_pos_if_in_set)
  ultimately show ?thesis
    by (simp add: length_remove1)
qed

text \<open>The inner loop.\<close>

function close_path ::
  "(coord \<Rightarrow> real) \<Rightarrow> line list \<Rightarrow> nat \<Rightarrow> state \<Rightarrow> error + state" where
  "close_path boundary_distance line_strings i s =
     (case path_step boundary_distance line_strings i s of
        Inl e \<Rightarrow> Inl e
      | Inr (Closed s') \<Rightarrow> Inr s'
      | Inr (Next s') \<Rightarrow> close_path boundary_distance line_strings i s')"
  by pat_completeness auto
termination
  by (relation "measure (\<lambda>(bd, ls, i, s). length (edge_things s))")
    (auto dest: path_step_Next_length)

declare close_path.simps [simp del]

lemma close_path_Inr_cases:
  assumes "close_path bd ls i s = Inr s'"
  obtains
    (stop) "path_step bd ls i s = Inr (Closed s')"
  | (go) s1 where "path_step bd ls i s = Inr (Next s1)" "close_path bd ls i s1 = Inr s'"
  using assms
  by (subst (asm) close_path.simps) (auto split: sum.splits step.splits)

lemma path_step_remaining_le:
  assumes "path_step bd ls i s = Inr r" and "r = Next s' \<or> r = Closed s'"
  shows "length (remaining_ls s') \<le> length (remaining_ls s)"
  using assms
  by (cases rule: path_step_cases) auto

lemma close_path_remaining_le:
  "close_path bd ls i s = Inr s' \<Longrightarrow> length (remaining_ls s') \<le> length (remaining_ls s)"
proof (induction bd ls i s rule: close_path.induct)
  case (1 bd ls i s)
  from "1.prems" show ?case
  proof (cases rule: close_path_Inr_cases)
    case stop
    then show ?thesis by (auto dest: path_step_remaining_le)
  next
    case (go s1)
    from go(1) have "length (remaining_ls s1) \<le> length (remaining_ls s)"
      by (auto dest: path_step_remaining_le)
    moreover from go have "length (remaining_ls s') \<le> length (remaining_ls s1)"
      by (intro "1.IH") auto
    ultimately show ?thesis by simp
  qed
qed

text \<open>
  The outer loop \<open>while remaining_ls\<close>. The inner loop never adds to \<open>remaining_ls\<close>, and
  \<open>popitem\<close> has removed one entry, so the outer loop ends.
\<close>

function traverse ::
  "(coord \<Rightarrow> real) \<Rightarrow> line list \<Rightarrow> BoundaryPoint list \<Rightarrow> (nat \<times> line) list \<Rightarrow> line list
     \<Rightarrow> error + line list" where
  "traverse boundary_distance line_strings edge_things0 remaining processed_ls =
     (if remaining = [] then Inr processed_ls
      else
        (case last remaining of
           (i, ls0) \<Rightarrow>
             (case close_path boundary_distance line_strings i
                     \<lparr>edge_things = edge_things0, remaining_ls = butlast remaining,
                      current_ls = ls0, added_linestring = {}\<rparr> of
                Inl e \<Rightarrow> Inl e
              | Inr s' \<Rightarrow>
                  traverse boundary_distance line_strings (edge_things s') (remaining_ls s')
                    (processed_ls @ [current_ls s']))))"
  by pat_completeness auto
termination
proof (relation "measure (\<lambda>(bd, ls, et, remaining, processed). length remaining)")
  show "wf (measure (\<lambda>(bd, ls, et, remaining, processed). length remaining))"
    by simp
next
  fix bd :: "coord \<Rightarrow> real" and ls et and remaining :: "(nat \<times> line) list"
    and processed :: "line list" and x i ls0 s'
  assume ne: "remaining \<noteq> []"
    and "close_path bd ls i
          \<lparr>edge_things = et, remaining_ls = butlast remaining,
           current_ls = ls0, added_linestring = {}\<rparr> = Inr s'"
  then have "length (remaining_ls s') \<le> length (butlast remaining)"
    by (auto dest: close_path_remaining_le)
  with ne show "((bd, ls, edge_things s', remaining_ls s', processed @ [current_ls s']),
       (bd, ls, et, remaining, processed))
      \<in> measure (\<lambda>(bd, ls, et, remaining, processed). length remaining)"
    by (cases remaining rule: rev_cases) auto
qed

declare traverse.simps [simp del]

subsection \<open>The rings\<close>

text \<open>The local function \<open>makes_valid_ring\<close>; \<open>is_valid\<close> is the attribute of the line string.\<close>

definition makes_valid_ring :: "(line \<Rightarrow> bool) \<Rightarrow> line \<Rightarrow> bool" where
  "makes_valid_ring is_valid line_string =
     (if length line_string = 3
      then hd line_string \<noteq> last line_string \<and> is_valid line_string
      else length line_string > 3 \<and> is_valid line_string)"

text \<open>
  The constructor \<open>sgeom.LinearRing\<close> of the geometry library, on a sequence that is not
  closed: the sequence is closed by a copy of its first coordinate.
\<close>

definition LinearRing :: "line \<Rightarrow> line" where
  "LinearRing cs = (if hd cs = last cs then cs else cs @ [hd cs])"

text \<open>
  \<open>_attach_lines_to_boundary\<close> in two parts: \<open>processed_ls\<close> at the end of the traversal,
  and the rings made of it.
\<close>

definition finished_paths ::
  "boundary \<Rightarrow> boundary \<Rightarrow> line list list \<Rightarrow> bool \<Rightarrow> error + line list" where
  "finished_paths cw_boundary ccw_boundary multi_line_strings is_ccw =
     (let b = (if is_ccw then ccw_boundary else cw_boundary);
          line_strings = concat multi_line_strings
      in case sorted_edge_things b line_strings of
           Inl e \<Rightarrow> Inl e
         | Inr sorted_things \<Rightarrow>
             (case insert_midpoints b sorted_things None sorted_things of
                Inl e \<Rightarrow> Inl e
              | Inr things \<Rightarrow>
                  traverse (project b) line_strings (filter filter_last things)
                    (enumerate 0 line_strings) []))"

definition attach_lines_to_boundary ::
  "boundary \<Rightarrow> boundary \<Rightarrow> (line \<Rightarrow> bool) \<Rightarrow> line list list \<Rightarrow> bool \<Rightarrow> error + line list" where
  "attach_lines_to_boundary cw_boundary ccw_boundary is_valid multi_line_strings is_ccw =
     (case finished_paths cw_boundary ccw_boundary multi_line_strings is_ccw of
        Inl e \<Rightarrow> Inl e
      | Inr processed_ls \<Rightarrow>
          Inr (map LinearRing (filter (makes_valid_ring is_valid) processed_ls)))"

subsection \<open>The fragments a path appends\<close>

text \<open>
  The line string that an iteration of the inner loop appends to the path, if any: the
  iteration found the first end of a line string \<open>j\<close> other than the one the path started
  at (the \<open>else\<close> branch of the loop body, which appends \<open>line_strings[j]\<close> before it looks
  \<open>j\<close> up in \<open>added_linestring\<close>). \<open>path_appends\<close> lists them for the whole path, up to and
  including the iteration that ends it.
\<close>

definition step_appends :: "(coord \<Rightarrow> real) \<Rightarrow> line list \<Rightarrow> nat \<Rightarrow> state \<Rightarrow> nat option" where
  "step_appends boundary_distance line_strings i s =
     (if current_ls s = [] then None
      else
        (case find_first_ge (edge_things s) (boundary_distance (last (current_ls s))) of
           Inr (LineEnd d j tg xy) \<Rightarrow>
             if j \<noteq> i \<and> j < length line_strings then Some j else None
         | _ \<Rightarrow> None))"

function path_appends :: "(coord \<Rightarrow> real) \<Rightarrow> line list \<Rightarrow> nat \<Rightarrow> state \<Rightarrow> nat list" where
  "path_appends boundary_distance line_strings i s =
     (case step_appends boundary_distance line_strings i s of
        None \<Rightarrow> []
      | Some j \<Rightarrow> [j])
     @ (case path_step boundary_distance line_strings i s of
          Inr (Next s') \<Rightarrow> path_appends boundary_distance line_strings i s'
        | _ \<Rightarrow> [])"
  by pat_completeness auto
termination
  by (relation "measure (\<lambda>(bd, ls, i, s). length (edge_things s))")
    (auto dest: path_step_Next_length)

declare path_appends.simps [simp del]

subsection \<open>Invariants of the traversal\<close>

text \<open>The line strings whose ends are among the given events.\<close>

fun line_id :: "BoundaryPoint \<Rightarrow> nat option" where
  "line_id (BoundaryVertex d p) = None"
| "line_id (LineEnd d j tg c) = Some j"

definition line_ids :: "BoundaryPoint list \<Rightarrow> nat list" where
  "line_ids things = List.map_filter line_id things"

text \<open>
  What holds at the head of the outer loop: every line string has at most one end among
  the events, every line string of the registry has one, and the line strings are there
  and have coordinates.
\<close>

definition traverse_inv :: "line list \<Rightarrow> BoundaryPoint list \<Rightarrow> (nat \<times> line) list \<Rightarrow> bool" where
  "traverse_inv ls et remaining \<longleftrightarrow>
     distinct (line_ids et)
     \<and> fst ` set remaining \<subseteq> set (line_ids et)
     \<and> (\<forall>j \<in> set (line_ids et). j < length ls \<and> ls ! j \<noteq> [])
     \<and> distinct (map fst remaining)
     \<and> (\<forall>(j, l) \<in> set remaining. l \<noteq> [])"

text \<open>
  What holds at the head of the inner loop in addition: the first end of the line string
  the path started at is among the events, and no line string that the path has appended
  has an end there.
\<close>

definition path_inv :: "line list \<Rightarrow> nat \<Rightarrow> state \<Rightarrow> bool" where
  "path_inv ls i s \<longleftrightarrow>
     distinct (line_ids (edge_things s))
     \<and> i \<in> set (line_ids (edge_things s))
     \<and> fst ` set (remaining_ls s) \<subseteq> set (line_ids (edge_things s)) - {i}
     \<and> added_linestring s \<inter> set (line_ids (edge_things s)) = {}
     \<and> (\<forall>j \<in> set (line_ids (edge_things s)). j < length ls \<and> ls ! j \<noteq> [])
     \<and> current_ls s \<noteq> []
     \<and> distinct (map fst (remaining_ls s))
     \<and> (\<forall>(j, l) \<in> set (remaining_ls s). l \<noteq> [])"

subsection \<open>An example boundary\<close>

text \<open>
  The unit square, clockwise from the origin, with the distance along it of the points
  that lie on it. It is the boundary of the examples below.
\<close>

definition unit_square_cw :: boundary where
  "unit_square_cw = \<lparr>coords = [(0, 0), (0, 1), (1, 1), (1, 0), (0, 0)],
     project = (\<lambda>(x, y). if x = 0 then y else if y = 1 then 1 + x
                 else if x = 1 then 3 - y else 4 - x),
     interpolate = (\<lambda>d. if d \<le> 1 then (0, d) else if d \<le> 2 then (d - 1, 1)
                 else if d \<le> 3 then (1, 3 - d) else (4 - d, 0))\<rparr>"

lemmas stitch_eval = finished_paths_def attach_lines_to_boundary_def unit_square_cw_def
  sorted_edge_things_def boundary_vertices_def enumerate_eq_zip traverse.simps
  close_path.simps path_step_def find_first_ge_def makes_valid_ring_def LinearRing_def Let_def

section \<open>The polygon assembler: \<open>_rings_to_multi_polygon\<close>\<close>

text \<open>
  A ring is the list of its coordinates, which is also what \<open>==\<close> of the geometry
  library compares (\<open>list.remove\<close> below removes by \<open>==\<close>). The operations of the library
  that the assembler calls are the fields of a record; \<open>'g\<close> is the type of the polygonal
  geometries. \<open>prep_contains g r\<close> is \<open>prep(g).contains(r)\<close> and \<open>buffer g d\<close> is
  \<open>g.buffer(d)\<close>.
\<close>

record 'g shapely =
  ring_is_ccw :: "line \<Rightarrow> bool"
  sgeom_Polygon :: "line \<Rightarrow> 'g"
  prep_contains :: "'g \<Rightarrow> line \<Rightarrow> bool"
  crosses :: "'g \<Rightarrow> line \<Rightarrow> bool"
  buffer :: "'g \<Rightarrow> real \<Rightarrow> 'g"
  polygon_is_empty :: "'g \<Rightarrow> bool"
  polygon_is_valid :: "'g \<Rightarrow> bool"
  bounds :: "'g \<Rightarrow> real \<times> real \<times> real \<times> real"
  sgeom_box :: "real \<Rightarrow> real \<Rightarrow> real \<Rightarrow> real \<Rightarrow> 'g"
  difference :: "'g \<Rightarrow> 'g \<Rightarrow> 'g"
  intersection :: "'g \<Rightarrow> 'g \<Rightarrow> 'g"

text \<open>
  An element of \<open>polygon_bits\<close>: the pair of the coordinates of an exterior ring and of
  its holes, or a geometry that the library returned. The multi-polygon that is returned
  is given by this list.
\<close>

datatype 'g polygon_bit = ShellHoles line "line list" | Geom 'g

text \<open>The first loop, which sorts the rings by their orientation.\<close>

fun classify :: "(line \<Rightarrow> bool) \<Rightarrow> line list \<Rightarrow> bool \<Rightarrow> line list \<Rightarrow> line list
    \<Rightarrow> line list \<times> line list" where
  "classify ring_ccw [] is_ccw exterior_rings interior_rings = (exterior_rings, interior_rings)"
| "classify ring_ccw (ring # rings) is_ccw exterior_rings interior_rings =
     (if ring_ccw ring \<noteq> is_ccw
      then classify ring_ccw rings is_ccw exterior_rings (interior_rings @ [ring])
      else classify ring_ccw rings is_ccw (exterior_rings @ [ring]) interior_rings)"

text \<open>\<open>list.remove\<close>, which raises \<open>ValueError\<close> when the value is absent.\<close>

definition list_remove :: "'a \<Rightarrow> 'a list \<Rightarrow> error + 'a list" where
  "list_remove x xs = (if x \<in> set xs then Inr (remove1 x xs) else Inl ValueError)"

text \<open>
  The loop over a copy of \<open>interior_rings\<close> (the third argument), for one exterior ring;
  it removes from \<open>interior_rings\<close> itself (the last argument).
\<close>

fun slurp :: "'g shapely \<Rightarrow> 'g \<Rightarrow> line list \<Rightarrow> line list \<Rightarrow> line list
    \<Rightarrow> error + line list \<times> line list" where
  "slurp sh polygon [] holes interior_rings = Inr (holes, interior_rings)"
| "slurp sh polygon (interior_ring # rest) holes interior_rings =
     (if prep_contains sh polygon interior_ring then
        (case list_remove interior_ring interior_rings of
           Inl e \<Rightarrow> Inl e
         | Inr interior_rings' \<Rightarrow> slurp sh polygon rest (holes @ [interior_ring]) interior_rings')
      else if crosses sh polygon interior_ring then
        (case list_remove interior_ring interior_rings of
           Inl e \<Rightarrow> Inl e
         | Inr interior_rings' \<Rightarrow> slurp sh polygon rest (holes @ [interior_ring]) interior_rings')
      else slurp sh polygon rest holes interior_rings)"

text \<open>The loop over the exterior rings.\<close>

fun assign_holes :: "'g shapely \<Rightarrow> line list \<Rightarrow> line list \<Rightarrow> 'g polygon_bit list
    \<Rightarrow> error + 'g polygon_bit list \<times> line list" where
  "assign_holes sh [] interior_rings polygon_bits = Inr (polygon_bits, interior_rings)"
| "assign_holes sh (exterior_ring # rest) interior_rings polygon_bits =
     (let polygon = sgeom_Polygon sh exterior_ring
      in case slurp sh polygon interior_rings [] interior_rings of
           Inl e \<Rightarrow> Inl e
         | Inr (holes, interior_rings') \<Rightarrow>
             assign_holes sh rest interior_rings'
               (polygon_bits @ [ShellHoles exterior_ring holes]))"

text \<open>
  The padding of a bounding box by a tenth of its width and height on every side; the
  source writes it out twice, for the domain and for every left-over ring.
\<close>

definition pad :: "real \<times> real \<times> real \<times> real \<Rightarrow> real \<times> real \<times> real \<times> real" where
  "pad b =
     (case b of
        (x1, y1, x2, y2) \<Rightarrow>
          (let bx = (x2 - x1) * 0.1;
               by' = (y2 - y1) * 0.1
           in (x1 - bx, y1 - by', x2 + bx, y2 + by')))"

text \<open>The loop over the left-over interior rings; the padded bounds of the domain are given.\<close>

fun invert_loop :: "'g shapely \<Rightarrow> 'g \<Rightarrow> real \<times> real \<times> real \<times> real \<Rightarrow> line list
    \<Rightarrow> 'g polygon_bit list \<Rightarrow> 'g polygon_bit list" where
  "invert_loop sh boundary_poly (x3, y3, x4, y4) [] polygon_bits = polygon_bits"
| "invert_loop sh boundary_poly (x3, y3, x4, y4) (ring # rest) polygon_bits =
     (let polygon = buffer sh (sgeom_Polygon sh ring) 0
      in if \<not> polygon_is_empty sh polygon \<and> polygon_is_valid sh polygon then
           (case pad (bounds sh polygon) of
              (x1, y1, x2, y2) \<Rightarrow>
                (let box = sgeom_box sh (min x1 x3) (min y1 y3) (max x2 x4) (max y2 y4);
                     polygon = difference sh box polygon;
                     polygon = intersection sh boundary_poly polygon
                 in if \<not> polygon_is_empty sh polygon
                    then invert_loop sh boundary_poly (x3, y3, x4, y4) rest
                           (polygon_bits @ [Geom polygon])
                    else invert_loop sh boundary_poly (x3, y3, x4, y4) rest polygon_bits))
         else invert_loop sh boundary_poly (x3, y3, x4, y4) rest polygon_bits)"

definition rings_to_multi_polygon ::
  "'g shapely \<Rightarrow> 'g \<Rightarrow> line list \<Rightarrow> bool \<Rightarrow> error + 'g polygon_bit list" where
  "rings_to_multi_polygon sh domain rings is_ccw =
     (case classify (ring_is_ccw sh) rings is_ccw [] [] of
        (exterior_rings, interior_rings) \<Rightarrow>
          (case assign_holes sh exterior_rings interior_rings [] of
             Inl e \<Rightarrow> Inl e
           | Inr (polygon_bits, interior_rings) \<Rightarrow>
               (let polygon_bits =
                      (if interior_rings \<noteq> [] then
                         (let boundary_poly = domain
                          in invert_loop sh boundary_poly (pad (bounds sh boundary_poly))
                               interior_rings polygon_bits)
                       else polygon_bits)
                in Inr (if polygon_bits \<noteq> [] then polygon_bits else []))))"

text \<open>
  The test of the loop over the interior rings, as one predicate: the exterior ring takes
  the interior ring when its polygon contains it or else crosses it.
\<close>

definition claims :: "'g shapely \<Rightarrow> line \<Rightarrow> line \<Rightarrow> bool" where
  "claims sh exterior_ring interior_ring \<longleftrightarrow>
     prep_contains sh (sgeom_Polygon sh exterior_ring) interior_ring
     \<or> crosses sh (sgeom_Polygon sh exterior_ring) interior_ring"

text \<open>The holes of a part.\<close>

fun bit_holes :: "'g polygon_bit \<Rightarrow> line list" where
  "bit_holes (ShellHoles e hs) = hs"
| "bit_holes (Geom g) = []"

subsection \<open>An example of the geometry operations\<close>

text \<open>
  An instance of the record for the examples below. A region is a shell with holes.
  Orientation is by the sign of the area, containment is by bounding boxes, and the two
  overlay operations are given for arguments that are nested in each other, where they
  return the shell clockwise and the holes counter-clockwise whatever the orientation of
  the arguments is. The instance is exact on the squares of the examples.
\<close>

datatype region = Region line "line list" | EmptyRegion

fun signed_area2 :: "line \<Rightarrow> real" where
  "signed_area2 (p # q # ps) = (fst p * snd q - fst q * snd p) + signed_area2 (q # ps)"
| "signed_area2 ps = 0"

definition clockwise :: "line \<Rightarrow> line" where
  "clockwise r = (if 0 < signed_area2 r then rev r else r)"

definition counter_clockwise :: "line \<Rightarrow> line" where
  "counter_clockwise r = (if signed_area2 r < 0 then rev r else r)"

fun bbox :: "line \<Rightarrow> real \<times> real \<times> real \<times> real" where
  "bbox [] = (0, 0, 0, 0)"
| "bbox [p] = (fst p, snd p, fst p, snd p)"
| "bbox (p # ps) =
     (case bbox ps of
        (x1, y1, x2, y2) \<Rightarrow> (min (fst p) x1, min (snd p) y1, max (fst p) x2, max (snd p) y2))"

fun region_bounds :: "region \<Rightarrow> real \<times> real \<times> real \<times> real" where
  "region_bounds (Region shell holes) = bbox shell"
| "region_bounds EmptyRegion = (0, 0, 0, 0)"

fun bbox_within :: "real \<times> real \<times> real \<times> real \<Rightarrow> real \<times> real \<times> real \<times> real \<Rightarrow> bool" where
  "bbox_within (x1, y1, x2, y2) (x3, y3, x4, y4) \<longleftrightarrow> x3 < x1 \<and> y3 < y1 \<and> x2 < x4 \<and> y2 < y4"

fun region_difference :: "region \<Rightarrow> region \<Rightarrow> region" where
  "region_difference (Region shell holes) (Region shell' holes') =
     Region (clockwise shell) (holes @ [counter_clockwise shell'])"
| "region_difference a EmptyRegion = a"
| "region_difference EmptyRegion b = EmptyRegion"

fun region_intersection :: "region \<Rightarrow> region \<Rightarrow> region" where
  "region_intersection (Region shell holes) (Region shell' holes') =
     Region (clockwise shell) (holes @ holes')"
| "region_intersection a b = EmptyRegion"

definition example_shapely :: "region shapely" where
  "example_shapely =
     \<lparr>ring_is_ccw = (\<lambda>r. 0 < signed_area2 r),
      sgeom_Polygon = (\<lambda>r. Region r []),
      prep_contains = (\<lambda>g r. bbox_within (bbox r) (region_bounds g)),
      crosses = (\<lambda>g r. False),
      buffer = (\<lambda>g d. g),
      polygon_is_empty = (\<lambda>g. g = EmptyRegion),
      polygon_is_valid = (\<lambda>g. True),
      bounds = region_bounds,
      sgeom_box = (\<lambda>x1 y1 x2 y2. Region [(x2, y1), (x2, y2), (x1, y2), (x1, y1), (x2, y1)] []),
      difference = region_difference,
      intersection = region_intersection\<rparr>"

definition square_cw :: "real \<Rightarrow> real \<Rightarrow> line" where
  "square_cw a b = [(a, a), (a, b), (b, b), (b, a), (a, a)]"

definition square_ccw :: "real \<Rightarrow> real \<Rightarrow> line" where
  "square_ccw a b = [(a, a), (b, a), (b, b), (a, b), (a, a)]"

section \<open>The ring projector: \<open>_project_linear_ring\<close>\<close>

text \<open>
  The threshold \<open>max(np.abs(self.x_limits + self.y_limits)) * 1e-5\<close>; the two limits are
  pairs, and \<open>+\<close> concatenates them.
\<close>

definition threshold :: "real \<times> real \<Rightarrow> real \<times> real \<Rightarrow> real" where
  "threshold x_limits y_limits =
     max (max \<bar>fst x_limits\<bar> \<bar>snd x_limits\<bar>) (max \<bar>fst y_limits\<bar> \<bar>snd y_limits\<bar>) * 0.00001"

text \<open>
  \<open>np.allclose(a, b, atol=atol)\<close> on two coordinates: numpy compares every component by
  \<open>|a - b| <= atol + rtol * |b|\<close>, with the default \<open>rtol = 1e-5\<close>.
\<close>

definition allclose :: "coord \<Rightarrow> coord \<Rightarrow> real \<Rightarrow> bool" where
  "allclose a b atol \<longleftrightarrow>
     \<bar>fst a - fst b\<bar> \<le> atol + 0.00001 * \<bar>fst b\<bar>
     \<and> \<bar>snd a - snd b\<bar> \<le> atol + 0.00001 * \<bar>snd b\<bar>"

subsection \<open>Stitching together the segments that are close to continuous\<close>

text \<open>
  The test of the inner loop, \<open>i != j and np.allclose(line_strings[i].coords[0],
  line_strings[j].coords[-1], atol=threshold)\<close>, for indices within the list; a line string
  with no coordinates raises \<open>IndexError\<close>.
\<close>

definition joins :: "real \<Rightarrow> line list \<Rightarrow> nat \<Rightarrow> nat \<Rightarrow> error + bool" where
  "joins atol line_strings i j =
     (if i \<noteq> j then
        (case line_strings ! i of
           [] \<Rightarrow> Inl IndexError
         | c # cs \<Rightarrow>
             if line_strings ! j = [] then Inl IndexError
             else Inr (allclose c (last (line_strings ! j)) atol))
      else Inr False)"

text \<open>
  The inner loop \<open>while j < len(line_strings)\<close> up to its \<open>break\<close>: the first \<open>j\<close> from
  the given one on that passes the test, if there is one.
\<close>

function scan_j :: "real \<Rightarrow> line list \<Rightarrow> nat \<Rightarrow> nat \<Rightarrow> error + nat option" where
  "scan_j atol line_strings i j =
     (if j < length line_strings then
        (case joins atol line_strings i j of
           Inl e \<Rightarrow> Inl e
         | Inr True \<Rightarrow> Inr (Some j)
         | Inr False \<Rightarrow> scan_j atol line_strings i (j + 1))
      else Inr None)"
  by pat_completeness auto
termination
  by (relation "measure (\<lambda>(atol, ls, i, j). length ls - j)") auto

declare scan_j.simps [simp del]

text \<open>\<open>del xs[n]\<close>.\<close>

definition del_at :: "nat \<Rightarrow> 'a list \<Rightarrow> 'a list" where
  "del_at n xs = take n xs @ drop (Suc n) xs"

lemma length_del_at [simp]: "n < length xs \<Longrightarrow> length (del_at n xs) = length xs - 1"
  by (auto simp: del_at_def)

text \<open>
  The outer loop \<open>while i < len(line_strings)\<close>. Where the inner loop found \<open>j\<close>, the
  two line strings are deleted (the one with the larger index first), their combination
  is appended and \<open>i\<close> becomes the smaller of the two indices. Every turn makes the list
  shorter or, on a list of the same length, \<open>i\<close> larger.
\<close>

lemma scan_j_Some:
  "scan_j atol ls i j0 = Inr (Some j) \<Longrightarrow>
     j0 \<le> j \<and> j < length ls \<and> j \<noteq> i \<and> joins atol ls i j = Inr True"
proof (induction atol ls i j0 rule: scan_j.induct)
  case (1 atol ls i j0)
  from "1.prems" have lt: "j0 < length ls"
    by (subst (asm) scan_j.simps) (auto split: if_splits)
  show ?case
  proof (cases "joins atol ls i j0")
    case (Inl e)
    with "1.prems" lt show ?thesis
      by (subst (asm) scan_j.simps) simp
  next
    case (Inr b)
    show ?thesis
    proof (cases b)
      case True
      with "1.prems" lt Inr have "j = j0"
        by (subst (asm) scan_j.simps) simp
      with Inr True lt show ?thesis
        by (auto simp: joins_def split: if_splits)
    next
      case False
      with "1.prems" lt Inr have "scan_j atol ls i (j0 + 1) = Inr (Some j)"
        by (subst (asm) scan_j.simps) simp
      moreover from False have "b = False" by simp
      ultimately show ?thesis using "1.IH" [OF lt Inr] by simp
    qed
  qed
qed

function fuse_loop :: "real \<Rightarrow> line list \<Rightarrow> nat \<Rightarrow> bool \<Rightarrow> error + line list \<times> bool" where
  "fuse_loop atol line_strings i any_modified =
     (if i < length line_strings then
        (case scan_j atol line_strings i 0 of
           Inl e \<Rightarrow> Inl e
         | Inr (Some j) \<Rightarrow>
             (let last_coords = line_strings ! j;
                  first_coords = tl (line_strings ! i);
                  combo = last_coords @ first_coords;
                  i' = (if j < i then j else i);
                  j' = (if j < i then i else j)
              in fuse_loop atol (del_at i' (del_at j' line_strings) @ [combo]) i' True)
         | Inr None \<Rightarrow> fuse_loop atol line_strings (i + 1) any_modified)
      else Inr (line_strings, any_modified))"
  by pat_completeness auto
termination
proof (relation "measures [\<lambda>(atol, ls, i, m). length ls, \<lambda>(atol, ls, i, m). length ls - i]")
  show "wf (measures [\<lambda>(atol, ls, i, m). length ls, \<lambda>(atol, ls, i, m). length ls - i])"
    by simp
next
  fix atol :: real and line_strings :: "line list" and i :: nat and any_modified :: bool
    and x2 x2a xa xb xc xd xe
  assume "i < length line_strings" "scan_j atol line_strings i 0 = Inr x2" "x2 = Some x2a"
    "xd = (if x2a < i then x2a else i)" "xe = (if x2a < i then i else x2a)"
  then have "x2a < length line_strings" "x2a \<noteq> i"
    by (auto dest: scan_j_Some)
  with \<open>i < length line_strings\<close> \<open>xd = _\<close> \<open>xe = _\<close>
  show "((atol, del_at xd (del_at xe line_strings) @ [xc], xd, True),
         (atol, line_strings, i, any_modified))
        \<in> measures [\<lambda>(atol, ls, i, m). length ls, \<lambda>(atol, ls, i, m). length ls - i]"
    by auto
next
  fix atol :: real and line_strings :: "line list" and i :: nat and any_modified :: bool and x2
  assume "i < length line_strings"
  then show "((atol, line_strings, i + 1, any_modified), (atol, line_strings, i, any_modified))
        \<in> measures [\<lambda>(atol, ls, i, m). length ls, \<lambda>(atol, ls, i, m). length ls - i]"
    by auto
qed

declare fuse_loop.simps [simp del]

subsection \<open>The rings that the projection has closed\<close>

text \<open>The loop of step 3 over the line strings.\<close>

fun ring_loop :: "real \<Rightarrow> line list \<Rightarrow> line list \<Rightarrow> line list \<Rightarrow> line list \<times> line list" where
  "ring_loop atol [] rings line_strings = (rings, line_strings)"
| "ring_loop atol (line # rest) rings line_strings =
     (if length line > 3 \<and> allclose (hd line) (last line) atol
      then ring_loop atol rest (rings @ [LinearRing (butlast line)]) line_strings
      else ring_loop atol rest rings (line_strings @ [line]))"

text \<open>
  \<open>_project_linear_ring\<close>; \<open>project_linear\<close> is the line clipper
  \<open>cartopy.trace.project_linear\<close>, whose result is given by its line strings.
\<close>

definition project_linear_ring ::
  "('sr \<Rightarrow> 'crs \<Rightarrow> line list) \<Rightarrow> real \<times> real \<Rightarrow> real \<times> real \<Rightarrow> 'sr \<Rightarrow> 'crs
     \<Rightarrow> error + line list \<times> line list" where
  "project_linear_ring project_linear x_limits y_limits linear_ring src_crs =
     (let multi_line_string = project_linear linear_ring src_crs
      in case (if length multi_line_string > 1 then
                 (case fuse_loop (threshold x_limits y_limits) multi_line_string 0 False of
                    Inl e \<Rightarrow> Inl e
                  | Inr (line_strings, any_modified) \<Rightarrow>
                      Inr (if any_modified then line_strings else multi_line_string))
               else Inr multi_line_string) of
           Inl e \<Rightarrow> Inl e
         | Inr multi_line_string \<Rightarrow>
             (case ring_loop (threshold x_limits y_limits) multi_line_string [] [] of
                (rings, line_strings) \<Rightarrow>
                  Inr (rings, if rings \<noteq> [] then line_strings else multi_line_string)))"

section \<open>The projection of a polygon: \<open>_project_polygon\<close>\<close>

text \<open>A source polygon: its exterior ring and its interior rings.\<close>

record 'sr src_polygon =
  exterior :: 'sr
  interiors :: "'sr list"

text \<open>The loop over the rings of the source polygon.\<close>

fun project_rings ::
  "('sr \<Rightarrow> error + line list \<times> line list) \<Rightarrow> 'sr list \<Rightarrow> line list \<Rightarrow> line list list
     \<Rightarrow> error + line list \<times> line list list" where
  "project_rings project_ring [] rings multi_lines = Inr (rings, multi_lines)"
| "project_rings project_ring (src_ring # rest) rings multi_lines =
     (case project_ring src_ring of
        Inl e \<Rightarrow> Inl e
      | Inr (p_rings, p_mline) \<Rightarrow>
          project_rings project_ring rest
            (if p_rings \<noteq> [] then rings @ p_rings else rings)
            (if length p_mline > 0 then multi_lines @ [p_mline] else multi_lines))"

text \<open>
  \<open>_project_polygon\<close>, with the three methods of \<open>self\<close> that it calls as parameters:
  \<open>_attach_lines_to_boundary\<close>, \<open>_rings_to_multi_polygon\<close> and \<open>_project_linear_ring\<close> (the
  latter two applied to their other arguments already). \<open>is_geodetic\<close> is the value of
  \<open>src_crs.is_geodetic()\<close> and \<open>ring_ccw\<close> the attribute \<open>is_ccw\<close> of a source ring.
\<close>

definition project_polygon_with ::
  "(line list list \<Rightarrow> bool \<Rightarrow> error + line list) \<Rightarrow> (line list \<Rightarrow> bool \<Rightarrow> error + 'p)
     \<Rightarrow> ('sr \<Rightarrow> error + line list \<times> line list) \<Rightarrow> bool \<Rightarrow> ('sr \<Rightarrow> bool)
     \<Rightarrow> 'sr src_polygon \<Rightarrow> error + 'p" where
  "project_polygon_with attach assemble project_ring is_geodetic ring_ccw polygon =
     (let is_ccw = (if is_geodetic then True else ring_ccw (exterior polygon))
      in case project_rings project_ring (exterior polygon # interiors polygon) [] [] of
           Inl e \<Rightarrow> Inl e
         | Inr (rings, multi_lines) \<Rightarrow>
             (case (if multi_lines \<noteq> [] then
                      (case attach multi_lines is_ccw of
                         Inl e \<Rightarrow> Inl e
                       | Inr stitched \<Rightarrow> Inr (rings @ stitched))
                    else Inr rings) of
                Inl e \<Rightarrow> Inl e
              | Inr rings \<Rightarrow> assemble rings is_ccw))"

text \<open>\<open>_project_polygon\<close> with the methods of this development.\<close>

definition project_polygon ::
  "boundary \<Rightarrow> boundary \<Rightarrow> (line \<Rightarrow> bool) \<Rightarrow> 'g shapely \<Rightarrow> 'g
     \<Rightarrow> ('sr \<Rightarrow> 'crs \<Rightarrow> line list) \<Rightarrow> real \<times> real \<Rightarrow> real \<times> real
     \<Rightarrow> ('crs \<Rightarrow> bool) \<Rightarrow> ('sr \<Rightarrow> bool) \<Rightarrow> 'sr src_polygon \<Rightarrow> 'crs
     \<Rightarrow> error + 'g polygon_bit list" where
  "project_polygon cw_boundary ccw_boundary is_valid sh domain project_linear x_limits y_limits
       is_geodetic ring_ccw polygon src_crs =
     project_polygon_with
       (attach_lines_to_boundary cw_boundary ccw_boundary is_valid)
       (rings_to_multi_polygon sh domain)
       (\<lambda>src_ring. project_linear_ring project_linear x_limits y_limits src_ring src_crs)
       (is_geodetic src_crs) ring_ccw polygon"

subsection \<open>Notions of the claims about the ring projector\<close>

text \<open>
  Two coordinates are within a tolerance when they differ by at most the tolerance in
  both components.
\<close>

definition within_tolerance :: "real \<Rightarrow> coord \<Rightarrow> coord \<Rightarrow> bool" where
  "within_tolerance tol a b \<longleftrightarrow> \<bar>fst a - fst b\<bar> \<le> tol \<and> \<bar>snd a - snd b\<bar> \<le> tol"

text \<open>
  One fusion: two line strings \<open>i\<close> and \<open>j\<close>, the first coordinate of \<open>i\<close> close to the
  last of \<open>j\<close>, are replaced by the coordinates of \<open>j\<close> followed by those of \<open>i\<close>
  without its first.
\<close>

definition fuses :: "real \<Rightarrow> line list \<Rightarrow> line list \<Rightarrow> bool" where
  "fuses atol ls ls' \<longleftrightarrow>
     (\<exists>i j. i < length ls \<and> j < length ls \<and> i \<noteq> j
        \<and> allclose (hd (ls ! i)) (last (ls ! j)) atol
        \<and> mset ls' = mset ls - {#ls ! i#} - {#ls ! j#} + {#ls ! j @ tl (ls ! i)#})"

text \<open>
  The first coordinate of a line string is close to the last of no other line string of
  the collection.
\<close>

definition settled :: "real \<Rightarrow> line multiset \<Rightarrow> line \<Rightarrow> bool" where
  "settled atol M x \<longleftrightarrow> (\<forall>l \<in># M - {#x#}. \<not> allclose (hd x) (last l) atol)"

text \<open>The test of step 3.\<close>

definition closes_itself :: "real \<Rightarrow> line \<Rightarrow> bool" where
  "closes_itself atol line \<longleftrightarrow> length line > 3 \<and> allclose (hd line) (last line) atol"

section \<open>Properties of the dispatcher\<close>

lemma dom_method_map: "dom method_map = supported_kinds"
  by (auto simp: method_map_def supported_kinds_def split: if_splits)

lemma method_map_nonempty: "method_map k = Some m \<Longrightarrow> m \<noteq> []"
  by (auto simp: method_map_def split: if_splits)

text \<open>
  Claim C9, as amended. With \<open>src_crs\<close> omitted the handler runs on the geodetic
  counterpart of the target; a \<open>src_crs\<close> that is not a CRS raises \<open>TypeError\<close> whatever
  the handlers and the geometry are; and a geometry whose kind is not one of the seven
  raises \<open>ValueError\<close> provided that \<open>src_crs\<close> has passed the first check.
\<close>

theorem C9_project_geometry_dispatch:
  fixes as_geodetic :: "'crs" and getattr_self :: "string \<Rightarrow> 'g \<Rightarrow> 'crs \<Rightarrow> 'r"
    and x :: "'x"
  shows "(geom_type geometry \<in> supported_kinds \<longrightarrow>
            (\<exists>m. method_map (geom_type geometry) = Some m \<and>
              project_geometry as_geodetic getattr_self geom_type geometry
                  (PyNone :: ('crs, 'x) src_arg)
                = Inr (getattr_self m geometry as_geodetic)))
       \<and> project_geometry as_geodetic getattr_self geom_type geometry
              (NotCRS x :: ('crs, 'x) src_arg) = Inl TypeError
       \<and> (geom_type geometry \<notin> supported_kinds \<longrightarrow>
            project_geometry as_geodetic getattr_self geom_type geometry
                (PyNone :: ('crs, 'x) src_arg) = Inl ValueError
          \<and> project_geometry as_geodetic getattr_self geom_type geometry
                (IsCRS c :: ('crs, 'x) src_arg) = Inl ValueError)"
proof (intro conjI impI)
  assume "geom_type geometry \<in> supported_kinds"
  then obtain m where m: "method_map (geom_type geometry) = Some m"
    using dom_method_map by blast
  then have "m \<noteq> []" by (rule method_map_nonempty)
  with m show "\<exists>m. method_map (geom_type geometry) = Some m \<and>
      project_geometry as_geodetic getattr_self geom_type geometry
          (PyNone :: ('crs, 'x) src_arg)
        = Inr (getattr_self m geometry as_geodetic)"
    by (simp add: project_geometry_def)
next
  show "project_geometry as_geodetic getattr_self geom_type geometry
      (NotCRS x :: ('crs, 'x) src_arg) = Inl TypeError"
    by (simp add: project_geometry_def)
next
  assume "geom_type geometry \<notin> supported_kinds"
  then have none: "method_map (geom_type geometry) = None"
    using dom_method_map by blast
  then show "project_geometry as_geodetic getattr_self geom_type geometry
      (PyNone :: ('crs, 'x) src_arg) = Inl ValueError"
    by (simp add: project_geometry_def)
  from none show "project_geometry as_geodetic getattr_self geom_type geometry
      (IsCRS c :: ('crs, 'x) src_arg) = Inl ValueError"
    by (simp add: project_geometry_def)
qed

theorem C9_project_geometry_dispatch_witness:
  "(\<exists>m. method_map ''Polygon'' = Some m \<and>
      project_geometry (0::nat) (\<lambda>m g c. (m, g, c)) (\<lambda>g. g) ''Polygon''
          (PyNone :: (nat, string) src_arg) = Inr (m, ''Polygon'', 0))
   \<and> project_geometry (0::nat) (\<lambda>m g c. (m, g, c)) (\<lambda>g. g) ''Polygon''
          (NotCRS ''epsg:4326'' :: (nat, string) src_arg) = Inl TypeError
   \<and> project_geometry (0::nat) (\<lambda>m g c. (m, g, c)) (\<lambda>g. g) ''GeometryCollection''
          (PyNone :: (nat, string) src_arg) = Inl ValueError
   \<and> project_geometry (0::nat) (\<lambda>m g c. (m, g, c)) (\<lambda>g. g) ''GeometryCollection''
          (IsCRS 7 :: (nat, string) src_arg) = Inl ValueError"
proof -
  have a: "''Polygon'' \<in> supported_kinds"
    and b: "''GeometryCollection'' \<notin> supported_kinds"
    by (simp_all add: supported_kinds_def)
  from a
    C9_project_geometry_dispatch [of "\<lambda>g. g" "''Polygon''" "0::nat" "\<lambda>m g c. (m, g, c)"
      "''epsg:4326''" 7]
  have 1: "\<exists>m. method_map ''Polygon'' = Some m \<and>
      project_geometry (0::nat) (\<lambda>m g c. (m, g, c)) (\<lambda>g. g) ''Polygon''
          (PyNone :: (nat, string) src_arg) = Inr (m, ''Polygon'', 0)"
    and 2: "project_geometry (0::nat) (\<lambda>m g c. (m, g, c)) (\<lambda>g. g) ''Polygon''
          (NotCRS ''epsg:4326'' :: (nat, string) src_arg) = Inl TypeError"
    by blast+
  from b
    C9_project_geometry_dispatch [of "\<lambda>g. g" "''GeometryCollection''" "0::nat"
      "\<lambda>m g c. (m, g, c)" "''epsg:4326''" 7]
  have 3: "project_geometry (0::nat) (\<lambda>m g c. (m, g, c)) (\<lambda>g. g) ''GeometryCollection''
          (PyNone :: (nat, string) src_arg) = Inl ValueError
     \<and> project_geometry (0::nat) (\<lambda>m g c. (m, g, c)) (\<lambda>g. g) ''GeometryCollection''
          (IsCRS 7 :: (nat, string) src_arg) = Inl ValueError"
    by blast
  from 1 2 3 show ?thesis by blast
qed

text \<open>
  The claim as it is written fails where both checks would fire: the first check wins,
  and a geometry of an unsupported kind with a \<open>src_crs\<close> that is not a CRS raises
  \<open>TypeError\<close>, not \<open>ValueError\<close>.
\<close>

theorem C9_unsupported_kind_counterexample:
  "''GeometryCollection'' \<notin> supported_kinds
   \<and> project_geometry (0::nat) (\<lambda>m g c. (m, g, c)) (\<lambda>g. g) ''GeometryCollection''
        (NotCRS ''epsg:4326'' :: (nat, string) src_arg) \<noteq> Inl ValueError"
  by (simp add: supported_kinds_def project_geometry_def)

section \<open>Properties of the multi-part handlers\<close>

lemma extend_loop_concat:
  "extend_loop f gs src acc = acc @ concat (map (\<lambda>g. f g src) gs)"
  by (induction gs arbitrary: acc) (simp_all add: Let_def)

text \<open>
  Claim C8 holds for the members and for two of the three handlers: every member is
  projected and the results are concatenated in order (an empty result adds nothing), and
  multi-points and multi-polygons come back as a geometry of their own kind, also when
  empty.
\<close>

lemma project_multipoint_result:
  "project_multipoint p gs src = MultiPoint (map (\<lambda>g. p g src) gs)"
  by (simp add: project_multipoint_def Let_def)

lemma project_multipolygon_result:
  "project_multipolygon f gs src = MultiPolygon (concat (map (\<lambda>g. f g src) gs))"
  by (simp add: project_multipolygon_def Let_def extend_loop_concat)

lemma project_multiline_result:
  "project_multiline f gs src =
     (if concat (map (\<lambda>g. f g src) gs) = [] then PyEmptyList
      else MultiLineString (concat (map (\<lambda>g. f g src) gs)))"
  by (simp add: project_multiline_def Let_def extend_loop_concat)

text \<open>
  Claim C8 fails in \<open>_project_multiline\<close>: when every member projects to an empty
  multi-line-string (here two members), the handler returns the empty Python list and
  not an empty multi-line-string, unlike its two siblings.
\<close>

theorem C8_project_multiline_all_empty:
  "project_multiline (\<lambda>(geom :: line) (src :: nat). ([] :: line list))
      [[(0, 0), (1, 1)], [(2, 2), (3, 3)]] 0
     = (PyEmptyList :: (coord, line, line) projected)
   \<and> project_multiline (\<lambda>(geom :: line) (src :: nat). ([] :: line list))
      [[(0, 0), (1, 1)], [(2, 2), (3, 3)]] 0
     \<noteq> (MultiLineString [] :: (coord, line, line) projected)"
  by (simp add: project_multiline_def)

section \<open>Properties of the boundary stitcher\<close>

subsection \<open>The order of the events\<close>

lemma sort_key_pair_order:
  fixes f :: "'a \<Rightarrow> real" and g :: "'a \<Rightarrow> bool"
  assumes "m < n" "n < length xs"
  shows "f (sort_key (\<lambda>x. (f x, g x)) xs ! m) < f (sort_key (\<lambda>x. (f x, g x)) xs ! n)
       \<or> f (sort_key (\<lambda>x. (f x, g x)) xs ! m) = f (sort_key (\<lambda>x. (f x, g x)) xs ! n)
         \<and> (g (sort_key (\<lambda>x. (f x, g x)) xs ! m) \<longrightarrow> g (sort_key (\<lambda>x. (f x, g x)) xs ! n))"
proof -
  let ?k = "\<lambda>x. (f x, g x)"
  let ?ys = "sort_key ?k xs"
  have "sorted (map ?k ?ys)" by (rule sorted_sort_key)
  moreover from assms have "m < n" "n < length (map ?k ?ys)" by simp_all
  ultimately have "map ?k ?ys ! m \<le> map ?k ?ys ! n"
    by (simp add: sorted_iff_nth_mono)
  with assms have "?k (?ys ! m) \<le> ?k (?ys ! n)" by simp
  then show ?thesis
    by (auto simp: less_eq_prod_def)
qed

text \<open>
  Claim C4. After the sort the events are the line ends and the boundary vertices that
  were built, in a new order; of two events the earlier one is at a distance that is not
  larger, and where the distances are equal a boundary vertex is never before a line end.
\<close>

theorem C4_sorted_edge_things:
  assumes "sorted_edge_things b line_strings = Inr es"
    and "m < n" and "n < length es"
  shows "(\<exists>ends. line_ends (project b) 0 line_strings = Inr ends
            \<and> mset es = mset ends + mset (boundary_vertices b))
       \<and> distance (es ! m) \<le> distance (es ! n)
       \<and> (distance (es ! m) = distance (es ! n) \<and> kind (es ! m) \<longrightarrow> kind (es ! n))"
proof -
  from assms(1) obtain ends where ends: "line_ends (project b) 0 line_strings = Inr ends"
    and es: "es = sort_key (\<lambda>thing. (distance thing, kind thing)) (ends @ boundary_vertices b)"
    by (auto simp: sorted_edge_things_def split: sum.splits)
  from es have "mset es = mset ends + mset (boundary_vertices b)" by simp
  moreover from assms(3) es have "n < length (ends @ boundary_vertices b)" by simp
  from sort_key_pair_order [OF assms(2) this, of distance kind] es
  have "distance (es ! m) < distance (es ! n)
       \<or> distance (es ! m) = distance (es ! n) \<and> (kind (es ! m) \<longrightarrow> kind (es ! n))"
    by simp
  ultimately show ?thesis using ends by auto
qed


theorem C4_sorted_edge_things_witness:
  "sorted_edge_things unit_square_cw [[(1, 1), (0, 1/2)]]
     = Inr [BoundaryVertex 0 (0, 0), LineEnd (1/2) 0 ''last'' (0, 1/2),
            BoundaryVertex 1 (0, 1), LineEnd 2 0 ''first'' (1, 1),
            BoundaryVertex 2 (1, 1), BoundaryVertex 3 (1, 0)]
   \<and> distance (LineEnd 2 0 ''first'' (1, 1)) \<le> distance (BoundaryVertex 2 (1, 1))
   \<and> \<not> kind (LineEnd 2 0 ''first'' (1, 1)) \<and> kind (BoundaryVertex 2 (1, 1))"
proof -
  let ?es = "[BoundaryVertex 0 (0, 0), LineEnd (1/2) 0 ''last'' (0, 1/2),
            BoundaryVertex 1 (0, 1), LineEnd 2 0 ''first'' (1, 1),
            BoundaryVertex 2 (1, 1), BoundaryVertex 3 (1, 0)]"
  have a: "sorted_edge_things unit_square_cw [[(1, 1), (0, 1/2)]] = Inr ?es"
    by (simp add: stitch_eval)
  have b: "(3 :: nat) < 4" and c: "4 < length ?es"
    by simp_all
  from C4_sorted_edge_things [OF a b c] a show ?thesis by simp
qed

subsection \<open>The traversal ends without an error\<close>

lemma line_ids_simps [simp]:
  "line_ids [] = []"
  "line_ids (BoundaryVertex d p # ts) = line_ids ts"
  "line_ids (LineEnd d j tg c # ts) = j # line_ids ts"
  "line_ids (xs @ ys) = line_ids xs @ line_ids ys"
  by (simp_all add: line_ids_def map_filter_simps) (simp add: map_filter_def)

lemma line_ids_mset_cong:
  "mset xs = mset ys \<Longrightarrow> mset (line_ids xs) = mset (line_ids ys)"
proof -
  assume eq: "mset xs = mset ys"
  have "\<And>zs. mset (line_ids zs)
      = image_mset (the \<circ> line_id) (filter_mset (\<lambda>x. line_id x \<noteq> None) (mset zs))"
    by (simp add: line_ids_def map_filter_def)
  with eq show ?thesis by simp
qed

lemma line_ids_mem: "LineEnd d j tg c \<in> set ts \<Longrightarrow> j \<in> set (line_ids ts)"
proof (induction ts)
  case Nil
  then show ?case by simp
next
  case (Cons t ts)
  then show ?case by (cases t) auto
qed

lemma line_ids_remove1_vertex [simp]:
  "line_ids (remove1 (BoundaryVertex d p) ts) = line_ids ts"
proof (induction ts)
  case Nil
  show ?case by simp
next
  case (Cons t ts)
  then show ?case by (cases t) auto
qed

lemma line_ids_remove1_line:
  "LineEnd d j tg c \<in> set ts \<Longrightarrow> distinct (line_ids ts) \<Longrightarrow>
     distinct (line_ids (remove1 (LineEnd d j tg c) ts))
     \<and> set (line_ids (remove1 (LineEnd d j tg c) ts)) = set (line_ids ts) - {j}"
proof (induction ts)
  case Nil
  then show ?case by simp
next
  case (Cons t ts)
  show ?case
  proof (cases "t = LineEnd d j tg c")
    case True
    with Cons.prems show ?thesis by auto
  next
    case False
    with Cons.prems have mem: "LineEnd d j tg c \<in> set ts" by simp
    show ?thesis
    proof (cases t)
      case (BoundaryVertex d' p')
      with Cons mem show ?thesis by simp
    next
      case (LineEnd d' j' tg' c')
      with Cons.prems have dis: "distinct (line_ids ts)" and nin: "j' \<notin> set (line_ids ts)"
        by simp_all
      from mem have "j \<in> set (line_ids ts)" by (rule line_ids_mem)
      with nin have "j' \<noteq> j" by auto
      with Cons.IH [OF mem dis] LineEnd False nin show ?thesis by auto
    qed
  qed
qed

lemma find_first_ge_nonempty: "a \<noteq> [] \<Longrightarrow> \<exists>v \<in> set a. find_first_ge a x = Inr v"
  by (auto simp: find_first_ge_def dest: first_ge_mem split: option.splits list.splits)

lemma path_step_total:
  assumes inv: "path_inv ls i s"
  shows "\<exists>r. path_step bd ls i s = Inr r
           \<and> (\<forall>s'. r = Next s' \<longrightarrow> path_inv ls i s')
           \<and> (\<forall>s'. r = Closed s' \<longrightarrow> traverse_inv ls (edge_things s') (remaining_ls s'))"
proof -
  from inv have ne: "edge_things s \<noteq> []" and cur: "current_ls s \<noteq> []"
    by (auto simp: path_inv_def)
  from find_first_ge_nonempty [OF ne] obtain v
    where v: "v \<in> set (edge_things s)"
      and f: "find_first_ge (edge_things s) (bd (last (current_ls s))) = Inr v"
    by blast
  show ?thesis
  proof (cases v)
    case (BoundaryVertex d p)
    with f cur have "path_step bd ls i s
        = Inr (Next (s\<lparr>edge_things := remove1 (BoundaryVertex d p) (edge_things s),
                       current_ls := current_ls s @ [p]\<rparr>))"
      by (simp add: path_step_def)
    moreover from inv have "path_inv ls i
        (s\<lparr>edge_things := remove1 (BoundaryVertex d p) (edge_things s),
           current_ls := current_ls s @ [p]\<rparr>)"
      by (simp add: path_inv_def)
    ultimately show ?thesis by simp
  next
    case (LineEnd d j tg c)
    from inv have dis: "distinct (line_ids (edge_things s))" by (simp add: path_inv_def)
    from v LineEnd have mem: "LineEnd d j tg c \<in> set (edge_things s)" by simp
    then have jin: "j \<in> set (line_ids (edge_things s))" by (rule line_ids_mem)
    from line_ids_remove1_line [OF mem dis]
    have dis': "distinct (line_ids (remove1 (LineEnd d j tg c) (edge_things s)))"
      and set': "set (line_ids (remove1 (LineEnd d j tg c) (edge_things s)))
                  = set (line_ids (edge_things s)) - {j}"
      by simp_all
    show ?thesis
    proof (cases "j = i")
      case True
      with f cur LineEnd have "path_step bd ls i s
          = Inr (Closed (s\<lparr>edge_things := remove1 (LineEnd d j tg c) (edge_things s)\<rparr>))"
        by (simp add: path_step_def)
      moreover from inv dis' set' True
      have "traverse_inv ls (remove1 (LineEnd d j tg c) (edge_things s)) (remaining_ls s)"
        by (auto simp: path_inv_def traverse_inv_def)
      ultimately show ?thesis by simp
    next
      case False
      from inv jin have jl: "j < length ls" and jne: "ls ! j \<noteq> []"
        and jadd: "j \<notin> added_linestring s"
        by (auto simp: path_inv_def)
      let ?s' = "s\<lparr>edge_things := remove1 (LineEnd d j tg c) (edge_things s),
                   remaining_ls := filter (\<lambda>(k, l). k \<noteq> j) (remaining_ls s),
                   current_ls := current_ls s @ ls ! j,
                   added_linestring := insert j (added_linestring s)\<rparr>"
      from f cur LineEnd False jl jadd have "path_step bd ls i s = Inr (Next ?s')"
        by (simp add: path_step_def)
      moreover from inv dis' set' False have "path_inv ls i ?s'"
        by (auto simp: path_inv_def distinct_map_filter)
      ultimately show ?thesis by simp
    qed
  qed
qed

lemma close_path_total:
  "path_inv ls i s \<Longrightarrow>
     \<exists>s'. close_path bd ls i s = Inr s' \<and> traverse_inv ls (edge_things s') (remaining_ls s')"
proof (induction bd ls i s rule: close_path.induct)
  case (1 bd ls i s)
  from path_step_total [OF "1.prems", of bd] obtain r
    where r: "path_step bd ls i s = Inr r"
      and nx: "\<And>s'. r = Next s' \<Longrightarrow> path_inv ls i s'"
      and cl: "\<And>s'. r = Closed s' \<Longrightarrow> traverse_inv ls (edge_things s') (remaining_ls s')"
    by blast
  show ?case
  proof (cases r)
    case (Next s1)
    with r nx have "\<exists>s'. close_path bd ls i s1 = Inr s'
        \<and> traverse_inv ls (edge_things s') (remaining_ls s')"
      by (intro "1.IH") auto
    with r Next show ?thesis
      by (subst close_path.simps) simp
  next
    case (Closed s1)
    with r cl show ?thesis
      by (subst close_path.simps) simp
  qed
qed

lemma traverse_total:
  "traverse_inv ls et remaining \<Longrightarrow> \<exists>ps. traverse bd ls et remaining processed = Inr ps"
proof (induction bd ls et remaining processed rule: traverse.induct)
  case (1 bd ls et remaining processed)
  show ?case
  proof (cases "remaining = []")
    case True
    then show ?thesis by (subst traverse.simps) simp
  next
    case False
    then obtain rest i ls0 where rem: "remaining = rest @ [(i, ls0)]"
      by (cases remaining rule: rev_cases) auto
    let ?s = "\<lparr>edge_things = et, remaining_ls = butlast remaining,
               current_ls = ls0, added_linestring = {}\<rparr>"
    from "1.prems" rem have "path_inv ls i ?s"
      by (auto simp: traverse_inv_def path_inv_def)
    from close_path_total [OF this, of bd] obtain s'
      where s': "close_path bd ls i ?s = Inr s'"
        and inv': "traverse_inv ls (edge_things s') (remaining_ls s')"
      by blast
    from False rem s' inv'
    have "\<exists>ps. traverse bd ls (edge_things s') (remaining_ls s') (processed @ [current_ls s'])
        = Inr ps"
      by (intro "1.IH" [of i ls0 s']) auto
    with False rem s' show ?thesis
      by (subst traverse.simps) simp
  qed
qed


lemma line_ends_total:
  "\<forall>l \<in> set ls. l \<noteq> [] \<Longrightarrow>
     \<exists>ends. line_ends bd i ls = Inr ends
       \<and> line_ids (filter filter_last ends) = [i ..< i + length ls]"
proof (induction ls arbitrary: i)
  case Nil
  show ?case by simp
next
  case (Cons l ls)
  from Cons.prems obtain c cs where l: "l = c # cs" by (cases l) auto
  from Cons.prems Cons.IH [of "Suc i"] obtain ends
    where "line_ends bd (Suc i) ls = Inr ends"
      and "line_ids (filter filter_last ends) = [Suc i ..< Suc i + length ls]"
    by auto
  moreover have "[i ..< i + length (l # ls)] = i # [Suc i ..< Suc i + length ls]"
    by (simp add: upt_conv_Cons del: upt_Suc)
  ultimately show ?case using l by (simp del: upt_Suc)
qed

lemma line_ids_boundary_vertices [simp]: "line_ids (boundary_vertices b) = []"
proof -
  have "line_ids (map (\<lambda>xy. BoundaryVertex (f xy) xy) xs) = []" for f xs
    by (induction xs) simp_all
  then show ?thesis by (simp add: boundary_vertices_def)
qed

lemma filter_last_vertices [simp]:
  "filter filter_last (boundary_vertices b) = boundary_vertices b"
  by (rule filter_True) (auto simp: boundary_vertices_def)

lemma index_of_total: "x \<in> set xs \<Longrightarrow> \<exists>n. index_of xs x = Inr n"
  by (induction xs) auto

lemma set_list_insert [simp]: "set (list_insert n x xs) = insert x (set xs)"
proof -
  have "set (take n xs) \<union> set (drop n xs) = set xs"
    by (metis append_take_drop_id set_append)
  then show ?thesis by (auto simp: list_insert_def)
qed

lemma line_ids_list_insert_vertex [simp]:
  "line_ids (filter filter_last (list_insert n (BoundaryVertex d p) xs))
     = line_ids (filter filter_last xs)"
proof -
  have "line_ids (filter filter_last (take n xs)) @ line_ids (filter filter_last (drop n xs))
      = line_ids (filter filter_last xs)"
    by (metis append_take_drop_id filter_append line_ids_simps(4))
  then show ?thesis by (simp add: list_insert_def)
qed

lemma insert_midpoints_total:
  "set copy \<subseteq> set et \<Longrightarrow>
     \<exists>et'. insert_midpoints b copy prev et = Inr et'
       \<and> line_ids (filter filter_last et') = line_ids (filter filter_last et)"
proof (induction b copy prev et rule: insert_midpoints.induct)
  case (1 b prev_thing edge_things)
  show ?case by simp
next
  case (2 b edge_thing rest edge_things)
  then show ?case by simp
next
  case (3 b edge_thing rest prev_thing et)
  show ?case
  proof (cases "same_line edge_thing prev_thing")
    case False
    with 3 show ?thesis by simp
  next
    case True
    from "3.prems" have "edge_thing \<in> set et" by simp
    from index_of_total [OF this] obtain ind where ind: "index_of et edge_thing = Inr ind"
      by blast
    let ?new = "BoundaryVertex ((distance edge_thing + distance prev_thing) * 0.5)
        (interpolate b ((distance edge_thing + distance prev_thing) * 0.5))"
    from "3.prems" have sub: "set rest \<subseteq> set (list_insert ind ?new et)" by auto
    from "3.IH"(1) [OF True refl refl refl ind sub] 
    obtain et' where "insert_midpoints b rest None (list_insert ind ?new et) = Inr et'"
      and "line_ids (filter filter_last et')
         = line_ids (filter filter_last (list_insert ind ?new et))"
      by blast
    with True ind show ?thesis by (simp add: Let_def)
  qed
qed

lemma traverse_inv_initial:
  assumes ne: "\<forall>l \<in> set ls. l \<noteq> []"
    and ids: "mset (line_ids et) = mset [0 ..< length ls]"
  shows "traverse_inv ls et (enumerate 0 ls)"
proof -
  from ids have "distinct (line_ids et) = distinct [0 ..< length ls]"
    by (rule mset_eq_imp_distinct_iff)
  then have dis: "distinct (line_ids et)" by simp
  from ids have "set (line_ids et) = set [0 ..< length ls]"
    by (rule mset_eq_setD)
  then have st: "set (line_ids et) = {0 ..< length ls}" by simp
  have keys: "map fst (enumerate 0 ls) = [0 ..< length ls]"
    by simp
  have "fst ` set (enumerate 0 ls) = set (map fst (enumerate 0 ls))"
    by (simp only: set_map)
  also have "\<dots> = {0 ..< length ls}"
    by (simp only: keys set_upt)
  finally have sub: "fst ` set (enumerate 0 ls) \<subseteq> set (line_ids et)"
    using st by simp
  from keys have dk: "distinct (map fst (enumerate 0 ls))"
    by simp
  from ne have vals: "\<forall>(j, l) \<in> set (enumerate 0 ls). l \<noteq> []"
    by (auto simp: in_set_enumerate_eq)
  from ne st have "\<forall>j \<in> set (line_ids et). j < length ls \<and> ls ! j \<noteq> []"
    by simp
  with dis sub dk vals show ?thesis
    unfolding traverse_inv_def by blast
qed

lemma finished_paths_total:
  assumes ne: "\<forall>l \<in> set (concat mls). l \<noteq> []"
  shows "\<exists>ps. finished_paths cw ccw mls is_ccw = Inr ps"
proof -
  define b where "b = (if is_ccw then ccw else cw)"
  define ls where "ls = concat mls"
  from ne line_ends_total [of ls "project b" 0] obtain ends
    where ends: "line_ends (project b) 0 ls = Inr ends"
      and ids: "line_ids (filter filter_last ends) = [0 ..< length ls]"
    by (auto simp: ls_def)
  define st where "st = sort_key (\<lambda>thing. (distance thing, kind thing)) (ends @ boundary_vertices b)"
  from ends have sorted: "sorted_edge_things b ls = Inr st"
    by (simp add: sorted_edge_things_def st_def)
  from insert_midpoints_total [of st st b None] obtain things
    where things: "insert_midpoints b st None st = Inr things"
      and tids: "line_ids (filter filter_last things) = line_ids (filter filter_last st)"
    by auto
  have "mset (filter filter_last st) = filter_mset filter_last (mset (ends @ boundary_vertices b))"
    by (simp add: st_def)
  also have "\<dots> = mset (filter filter_last (ends @ boundary_vertices b))"
    by (simp only: mset_filter)
  finally have "mset (filter filter_last st)
      = mset (filter filter_last ends @ boundary_vertices b)"
    by simp
  then have "mset (line_ids (filter filter_last st))
      = mset (line_ids (filter filter_last ends @ boundary_vertices b))"
    by (rule line_ids_mset_cong)
  with tids ids have "mset (line_ids (filter filter_last things)) = mset [0 ..< length ls]"
    by simp
  with ne have "traverse_inv ls (filter filter_last things) (enumerate 0 ls)"
    by (intro traverse_inv_initial) (simp_all add: ls_def)
  from traverse_total [OF this, of "project b" "[]"] obtain ps
    where "traverse (project b) ls (filter filter_last things) (enumerate 0 ls) [] = Inr ps"
    by blast
  with sorted things show ?thesis
    by (simp add: finished_paths_def b_def [symmetric] ls_def [symmetric])
qed


text \<open>
  Claim C10. Where every line string has a coordinate, the stitcher returns: the traversal
  raises neither of its two errors. The facts behind it are part of the statement:
  \<open>_find_first_ge\<close> returns an element of a list that is not empty; an iteration of the
  inner loop removes exactly one event; it does not remove the first end of the line
  string the path started at unless it closes the path; and a closed path leaves the
  registry smaller than it was before \<open>popitem\<close>.
\<close>

theorem C10_traversal_terminates:
  assumes "\<forall>l \<in> set (concat mls). l \<noteq> []"
  shows "(\<exists>rings. attach_lines_to_boundary cw ccw is_valid mls is_ccw = Inr rings)
       \<and> (\<forall>a x. a \<noteq> [] \<longrightarrow> (\<exists>v \<in> set a. find_first_ge a x = Inr v))
       \<and> (\<forall>bd ls i s r s'.
             path_step bd ls i s = Inr r \<and> (r = Next s' \<or> r = Closed s') \<longrightarrow>
               (\<exists>v \<in> set (edge_things s). edge_things s' = remove1 v (edge_things s))
               \<and> Suc (length (edge_things s')) = length (edge_things s))
       \<and> (\<forall>bd ls i s s' d tg c.
             path_step bd ls i s = Inr (Next s') \<and> LineEnd d i tg c \<in> set (edge_things s)
               \<longrightarrow> LineEnd d i tg c \<in> set (edge_things s'))
       \<and> (\<forall>bd ls i et remaining ls0 s'.
             remaining \<noteq> []
             \<and> close_path bd ls i
                   \<lparr>edge_things = et, remaining_ls = butlast remaining,
                    current_ls = ls0, added_linestring = {}\<rparr> = Inr s'
               \<longrightarrow> length (remaining_ls s') < length remaining)"
proof (intro conjI allI impI)
  from finished_paths_total [OF assms, of cw ccw is_ccw]
  show "\<exists>rings. attach_lines_to_boundary cw ccw is_valid mls is_ccw = Inr rings"
    by (auto simp: attach_lines_to_boundary_def)
next
  fix a :: "BoundaryPoint list" and x
  assume "a \<noteq> []"
  then show "\<exists>v \<in> set a. find_first_ge a x = Inr v"
    by (rule find_first_ge_nonempty)
next
  fix bd ls i s r s'
  assume a: "path_step bd ls i s = Inr r \<and> (r = Next s' \<or> r = Closed s')"
  with path_step_removes_one [of bd ls i s r]
  show rm: "\<exists>v \<in> set (edge_things s). edge_things s' = remove1 v (edge_things s)"
    by blast
  then obtain v where "v \<in> set (edge_things s)"
    and "edge_things s' = remove1 v (edge_things s)"
    by blast
  moreover from this have "0 < length (edge_things s)"
    by (auto simp: length_pos_if_in_set)
  ultimately show "Suc (length (edge_things s')) = length (edge_things s)"
    by (simp add: length_remove1)
next
  fix bd ls i s s' d tg c
  assume a: "path_step bd ls i s = Inr (Next s') \<and> LineEnd d i tg c \<in> set (edge_things s)"
  then have "path_step bd ls i s = Inr (Next s')" by simp
  then show "LineEnd d i tg c \<in> set (edge_things s')"
    using a by (cases rule: path_step_cases) auto
next
  fix bd ls i et and remaining :: "(nat \<times> line) list" and ls0 s'
  assume a: "remaining \<noteq> []
     \<and> close_path bd ls i
           \<lparr>edge_things = et, remaining_ls = butlast remaining,
            current_ls = ls0, added_linestring = {}\<rparr> = Inr s'"
  then have "length (remaining_ls s') \<le> length (butlast remaining)"
    by (auto dest: close_path_remaining_le)
  with a show "length (remaining_ls s') < length remaining"
    by (cases remaining rule: rev_cases) auto
qed

theorem C10_traversal_terminates_witness:
  "[(1/2, 1), (0, 1/2 :: real)] \<noteq> []
   \<and> (\<exists>rings. attach_lines_to_boundary unit_square_cw unit_square_cw (\<lambda>l. True)
         [[[(1/2, 1), (0, 1/2)]]] False = Inr rings)"
proof -
  have "\<forall>l \<in> set (concat [[[(1/2, 1), (0, 1/2 :: real)]]]). l \<noteq> []"
    by simp
  from C10_traversal_terminates [OF this, of unit_square_cw unit_square_cw "\<lambda>l. True" False]
  show ?thesis by blast
qed

subsection \<open>The error of a line string added twice\<close>

lemma path_step_RuntimeError:
  "path_step bd ls i s = Inl RuntimeError \<longleftrightarrow>
     (\<exists>j. step_appends bd ls i s = Some j \<and> j \<in> added_linestring s)"
  by (auto simp: path_step_def step_appends_def find_first_ge_def Let_def
      split: sum.splits BoundaryPoint.splits option.splits list.splits if_splits)

lemma path_step_Inl_appends:
  "path_step bd ls i s = Inl e \<Longrightarrow> e \<noteq> RuntimeError \<Longrightarrow> step_appends bd ls i s = None"
  by (auto simp: path_step_def step_appends_def Let_def
      split: sum.splits BoundaryPoint.splits if_splits)

lemma close_path_RuntimeError:
  "close_path bd ls i s = Inl RuntimeError \<longleftrightarrow>
     \<not> (distinct (path_appends bd ls i s)
        \<and> set (path_appends bd ls i s) \<inter> added_linestring s = {})"
proof (induction bd ls i s rule: close_path.induct)
  case (1 bd ls i s)
  show ?case
  proof (cases "path_step bd ls i s")
    case (Inl e)
    show ?thesis
    proof (cases "e = RuntimeError")
      case True
      with Inl obtain j where j: "step_appends bd ls i s = Some j" "j \<in> added_linestring s"
        by (auto simp: path_step_RuntimeError)
      from Inl have c: "close_path bd ls i s = Inl e"
        by (subst close_path.simps) simp
      from Inl j have p: "path_appends bd ls i s = [j]"
        by (subst path_appends.simps) simp
      from c p j True show ?thesis by simp
    next
      case False
      with Inl have ap: "step_appends bd ls i s = None"
        by (rule path_step_Inl_appends)
      from Inl have c: "close_path bd ls i s = Inl e"
        by (subst close_path.simps) simp
      from Inl ap have p: "path_appends bd ls i s = []"
        by (subst path_appends.simps) simp
      from c p False show ?thesis by simp
    qed
  next
    case (Inr r)
    then show ?thesis
    proof (cases rule: path_step_cases)
      case (vertex d p)
      let ?s' = "s\<lparr>edge_things := remove1 (BoundaryVertex d p) (edge_things s),
                   current_ls := current_ls s @ [p]\<rparr>"
      from vertex Inr have st: "path_step bd ls i s = Inr (Next ?s')" by simp
      from st have cur: "current_ls s \<noteq> []"
        by (auto simp: path_step_def split: if_splits)
      with vertex have ap: "step_appends bd ls i s = None"
        by (simp add: step_appends_def)
      from st have c: "close_path bd ls i s = close_path bd ls i ?s'"
        by (subst close_path.simps) simp
      from st ap have p: "path_appends bd ls i s = path_appends bd ls i ?s'"
        by (subst path_appends.simps) simp
      from "1.IH" [OF st] c p show ?thesis by simp
    next
      case (closed d tg xy)
      from closed Inr have st: "path_step bd ls i s
          = Inr (Closed (s\<lparr>edge_things := remove1 (LineEnd d i tg xy) (edge_things s)\<rparr>))"
        by simp
      from closed have ap: "step_appends bd ls i s = None"
        by (simp add: step_appends_def)
      from st have c: "close_path bd ls i s
          = Inr (s\<lparr>edge_things := remove1 (LineEnd d i tg xy) (edge_things s)\<rparr>)"
        by (subst close_path.simps) simp
      from st ap have p: "path_appends bd ls i s = []"
        by (subst path_appends.simps) simp
      from c p show ?thesis by simp
    next
      case (line d j tg xy)
      let ?s' = "s\<lparr>edge_things := remove1 (LineEnd d j tg xy) (edge_things s),
                   remaining_ls := filter (\<lambda>(k, l). k \<noteq> j) (remaining_ls s),
                   current_ls := current_ls s @ ls ! j,
                   added_linestring := insert j (added_linestring s)\<rparr>"
      from line Inr have st: "path_step bd ls i s = Inr (Next ?s')" by simp
      from st have cur: "current_ls s \<noteq> []"
        by (auto simp: path_step_def split: if_splits)
      with line have ap: "step_appends bd ls i s = Some j"
        by (simp add: step_appends_def)
      from st have c: "close_path bd ls i s = close_path bd ls i ?s'"
        by (subst close_path.simps) simp
      from st ap have p: "path_appends bd ls i s = j # path_appends bd ls i ?s'"
        by (subst path_appends.simps) simp
      from "1.IH" [OF st] c p line(4) show ?thesis by auto
    qed
  qed
qed

text \<open>
  Claim C5. A path starts with \<open>added_linestring\<close> empty. Its inner loop raises the
  \<open>RuntimeError\<close> (the \<open>StitchingInconsistency\<close> of the specification) if and only if
  among the line strings that the path appends one occurs twice.
\<close>

theorem C5_revisit_error:
  assumes "added_linestring s = {}"
  shows "close_path bd ls i s = Inl RuntimeError \<longleftrightarrow> \<not> distinct (path_appends bd ls i s)"
  using assms by (simp add: close_path_RuntimeError)

theorem C5_revisit_error_witness:
  "path_appends (project unit_square_cw) [[(0, 3/4), (1/4, 1)], [(1/2, 1), (0, 1/2)]] 1
      \<lparr>edge_things = [BoundaryVertex 0 (0, 0), LineEnd (3/4) 0 ''first'' (0, 3/4),
                      BoundaryVertex 1 (0, 1), LineEnd (3/2) 1 ''first'' (1/2, 1),
                      BoundaryVertex 2 (1, 1), BoundaryVertex 3 (1, 0)],
       remaining_ls = [(0, [(0, 3/4), (1/4, 1)])],
       current_ls = [(1/2, 1), (0, 1/2)], added_linestring = {}\<rparr> = [0]
   \<and> close_path (project unit_square_cw) [[(0, 3/4), (1/4, 1)], [(1/2, 1), (0, 1/2)]] 1
      \<lparr>edge_things = [BoundaryVertex 0 (0, 0), LineEnd (3/4) 0 ''first'' (0, 3/4),
                      BoundaryVertex 1 (0, 1), LineEnd (3/2) 1 ''first'' (1/2, 1),
                      BoundaryVertex 2 (1, 1), BoundaryVertex 3 (1, 0)],
       remaining_ls = [(0, [(0, 3/4), (1/4, 1)])],
       current_ls = [(1/2, 1), (0, 1/2)], added_linestring = {}\<rparr> \<noteq> Inl RuntimeError"
proof -
  let ?s = "\<lparr>edge_things = [BoundaryVertex 0 (0, 0), LineEnd (3/4) 0 ''first'' (0, 3/4),
                      BoundaryVertex 1 (0, 1), LineEnd (3/2) 1 ''first'' (1/2, 1),
                      BoundaryVertex 2 (1, 1), BoundaryVertex 3 (1, 0)],
       remaining_ls = [(0, [(0, 3/4), (1/4, 1)])],
       current_ls = [(1/2, 1), (0, 1/2)], added_linestring = {}\<rparr>"
  have a: "added_linestring ?s = {}" by simp
  have b: "path_appends (project unit_square_cw)
      [[(0, 3/4), (1/4, 1)], [(1/2, 1), (0, 1/2)]] 1 ?s = [0]"
    by (simp add: path_appends.simps step_appends_def stitch_eval)
  from C5_revisit_error [OF a, of "project unit_square_cw"
      "[[(0, 3/4), (1/4, 1)], [(1/2, 1), (0, 1/2)]]" 1] b
  show ?thesis by simp
qed

subsection \<open>The rings that are returned\<close>

lemma LinearRing_closed: "p \<noteq> [] \<Longrightarrow> hd (LinearRing p) = last (LinearRing p)"
  by (simp add: LinearRing_def)

lemma makes_valid_ring_iff:
  "makes_valid_ring is_valid p \<longleftrightarrow>
     is_valid p \<and> (3 < length p \<or> length p = 3 \<and> hd p \<noteq> last p)"
  by (auto simp: makes_valid_ring_def)

lemma LinearRing_length: "makes_valid_ring is_valid p \<Longrightarrow> 4 \<le> length (LinearRing p)"
  by (auto simp: makes_valid_ring_def LinearRing_def split: if_splits)

text \<open>
  Claim C1, as amended. Every ring that is returned is the closed form of a finished path
  that passed the test \<open>is_valid\<close> of the geometry library and has more than three
  coordinates, or exactly three with the last different from the first; the ring is
  closed and has at least four coordinates, the closing one counted.
\<close>

theorem C1_emitted_rings:
  assumes "attach_lines_to_boundary cw ccw is_valid mls is_ccw = Inr rings"
    and "ring \<in> set rings"
  shows "\<exists>processed_ls p.
           finished_paths cw ccw mls is_ccw = Inr processed_ls
         \<and> rings = map LinearRing (filter (makes_valid_ring is_valid) processed_ls)
         \<and> p \<in> set processed_ls \<and> ring = LinearRing p
         \<and> is_valid p \<and> (3 < length p \<or> length p = 3 \<and> hd p \<noteq> last p)
         \<and> hd ring = last ring \<and> 4 \<le> length ring"
proof -
  from assms(1) obtain processed_ls
    where fp: "finished_paths cw ccw mls is_ccw = Inr processed_ls"
      and rs: "rings = map LinearRing (filter (makes_valid_ring is_valid) processed_ls)"
    by (auto simp: attach_lines_to_boundary_def split: sum.splits)
  from assms(2) rs obtain p where p: "p \<in> set processed_ls" "makes_valid_ring is_valid p"
    and r: "ring = LinearRing p"
    by auto
  from p(2) have v: "is_valid p \<and> (3 < length p \<or> length p = 3 \<and> hd p \<noteq> last p)"
    by (simp add: makes_valid_ring_iff)
  then have "p \<noteq> []" by auto
  then have "hd ring = last ring" using r by (simp add: LinearRing_closed)
  moreover from p(2) r have "4 \<le> length ring" by (simp add: LinearRing_length)
  ultimately show ?thesis using fp rs p(1) r v by blast
qed

theorem C1_emitted_rings_witness:
  "attach_lines_to_boundary unit_square_cw unit_square_cw (\<lambda>l. True)
       [[[(1/2, 1), (0, 1/2)]]] False = Inr [[(1/2, 1), (0, 1/2), (0, 1), (1/2, 1)]]
   \<and> (\<exists>processed_ls p.
           finished_paths unit_square_cw unit_square_cw [[[(1/2, 1), (0, 1/2)]]] False
             = Inr processed_ls
         \<and> [[(1/2, 1), (0, 1/2), (0, 1), (1/2, 1)]]
             = map LinearRing (filter (makes_valid_ring (\<lambda>l. True)) processed_ls)
         \<and> p \<in> set processed_ls \<and> [(1/2, 1), (0, 1/2), (0, 1), (1/2, 1)] = LinearRing p
         \<and> (3 < length p \<or> length p = 3 \<and> hd p \<noteq> last p)
         \<and> hd [(1/2, 1), (0, 1/2), (0, 1), (1/2, 1 :: real)]
             = last [(1/2, 1), (0, 1/2), (0, 1), (1/2 :: real, 1 :: real)]
         \<and> 4 \<le> length [(1/2, 1), (0, 1/2), (0, 1), (1/2 :: real, 1 :: real)])"
proof -
  have a: "attach_lines_to_boundary unit_square_cw unit_square_cw (\<lambda>l. True)
       [[[(1/2, 1), (0, 1/2)]]] False = Inr [[(1/2, 1), (0, 1/2), (0, 1), (1/2, 1)]]"
    by (simp add: stitch_eval)
  have b: "[(1/2, 1), (0, 1/2), (0, 1), (1/2 :: real, 1 :: real)]
      \<in> set [[(1/2, 1), (0, 1/2), (0, 1), (1/2, 1)]]"
    by simp
  from C1_emitted_rings [OF a b] a show ?thesis by simp
qed

text \<open>
  The claim as it is written fails on a line string that cuts a corner of the boundary:
  the finished path is the two coordinates of the line string and the corner, three
  coordinates with the last different from the first; it passes the test, and the ring
  that is returned is a triangle, with three distinct coordinates.
\<close>

theorem C1_distinct_coordinates_counterexample:
  "finished_paths unit_square_cw unit_square_cw [[[(1/2, 1), (0, 1/2)]]] False
     = Inr [[(1/2, 1), (0, 1/2), (0, 1)]]
   \<and> makes_valid_ring (\<lambda>l. True) [(1/2, 1), (0, 1/2), (0, 1)]
   \<and> attach_lines_to_boundary unit_square_cw unit_square_cw (\<lambda>l. True)
       [[[(1/2, 1), (0, 1/2)]]] False = Inr [[(1/2, 1), (0, 1/2), (0, 1), (1/2, 1)]]
   \<and> card (set [(1/2, 1), (0, 1/2), (0, 1), (1/2 :: real, 1 :: real)]) < 4"
  by (simp add: stitch_eval card_insert_if)

section \<open>Properties of the polygon assembler\<close>

lemma classify_filter:
  "classify ring_ccw rings is_ccw exts ints =
     (exts @ filter (\<lambda>r. ring_ccw r = is_ccw) rings,
      ints @ filter (\<lambda>r. ring_ccw r \<noteq> is_ccw) rings)"
  by (induction rings arbitrary: exts ints) auto

lemma slurp_filter:
  assumes "\<forall>a \<in> set A. \<not> (prep_contains sh g a \<or> crosses sh g a)"
  shows "slurp sh g C holes (A @ C) =
     Inr (holes @ filter (\<lambda>r. prep_contains sh g r \<or> crosses sh g r) C,
          A @ filter (\<lambda>r. \<not> (prep_contains sh g r \<or> crosses sh g r)) C)"
  using assms
proof (induction C arbitrary: A holes)
  case Nil
  show ?case by simp
next
  case (Cons r C)
  show ?case
  proof (cases "prep_contains sh g r \<or> crosses sh g r")
    case True
    with Cons.prems have "r \<notin> set A" by auto
    then have "list_remove r (A @ r # C) = Inr (A @ C)"
      by (simp add: list_remove_def remove1_append)
    with True Cons.IH [OF Cons.prems, of "holes @ [r]"] show ?thesis
      by auto
  next
    case False
    with Cons.prems have "\<forall>a \<in> set (A @ [r]). \<not> (prep_contains sh g a \<or> crosses sh g a)"
      by auto
    from Cons.IH [OF this, of holes] False show ?thesis
      by simp
  qed
qed

lemma slurp_all:
  "slurp sh (sgeom_Polygon sh e) ints [] ints =
     Inr (filter (claims sh e) ints, filter (\<lambda>r. \<not> claims sh e r) ints)"
  using slurp_filter [of "[]" sh "sgeom_Polygon sh e" ints "[]"]
  by (simp add: claims_def [abs_def])

lemma assign_holes_char:
  "\<exists>holes. assign_holes sh exts ints bits =
       Inr (bits @ map (\<lambda>(e, hs). ShellHoles e hs) (zip exts holes),
            filter (\<lambda>h. \<forall>k < length exts. \<not> claims sh (exts ! k) h) ints)
     \<and> length holes = length exts
     \<and> (\<forall>k < length exts. holes ! k =
           filter (\<lambda>h. claims sh (exts ! k) h \<and> (\<forall>k' < k. \<not> claims sh (exts ! k') h)) ints)"
proof (induction exts arbitrary: ints bits)
  case Nil
  show ?case by simp
next
  case (Cons e es)
  let ?h0 = "filter (claims sh e) ints"
  let ?ints' = "filter (\<lambda>r. \<not> claims sh e r) ints"
  from Cons.IH [of ?ints' "bits @ [ShellHoles e ?h0]"] obtain holes
    where a: "assign_holes sh es ?ints' (bits @ [ShellHoles e ?h0]) =
        Inr ((bits @ [ShellHoles e ?h0]) @ map (\<lambda>(e, hs). ShellHoles e hs) (zip es holes),
             filter (\<lambda>h. \<forall>k < length es. \<not> claims sh (es ! k) h) ?ints')"
      and l: "length holes = length es"
      and n: "\<forall>k < length es. holes ! k =
           filter (\<lambda>h. claims sh (es ! k) h \<and> (\<forall>k' < k. \<not> claims sh (es ! k') h)) ?ints'"
    by blast
  have orph: "filter (\<lambda>h. \<forall>k < length es. \<not> claims sh (es ! k) h) ?ints'
      = filter (\<lambda>h. \<forall>k < length (e # es). \<not> claims sh ((e # es) ! k) h) ints"
    by (auto simp: All_less_Suc2 intro: filter_cong)
  have nth: "(?h0 # holes) ! k =
      filter (\<lambda>h. claims sh ((e # es) ! k) h \<and> (\<forall>k' < k. \<not> claims sh ((e # es) ! k') h)) ints"
    if "k < length (e # es)" for k
  proof (cases k)
    case 0
    then show ?thesis by simp
  next
    case (Suc k0)
    with that n have "holes ! k0 =
        filter (\<lambda>h. claims sh (es ! k0) h \<and> (\<forall>k' < k0. \<not> claims sh (es ! k') h)) ?ints'"
      by simp
    also have "\<dots> = filter (\<lambda>h. claims sh ((e # es) ! Suc k0) h
        \<and> (\<forall>k' < Suc k0. \<not> claims sh ((e # es) ! k') h)) ints"
      by (auto simp: All_less_Suc2 intro: filter_cong)
    finally show ?thesis using Suc by simp
  qed
  from a orph have "assign_holes sh (e # es) ints bits =
       Inr (bits @ map (\<lambda>(e, hs). ShellHoles e hs) (zip (e # es) (?h0 # holes)),
            filter (\<lambda>h. \<forall>k < length (e # es). \<not> claims sh ((e # es) ! k) h) ints)"
    by (simp add: slurp_all)
  with l nth show ?case
    by (intro exI [of _ "?h0 # holes"]) simp
qed

lemma assign_holes_mset:
  "assign_holes sh exts ints bits = Inr (bits', orphans) \<Longrightarrow>
     mset (concat (map bit_holes bits')) + mset orphans
       = mset (concat (map bit_holes bits)) + mset ints"
proof (induction exts arbitrary: ints bits)
  case Nil
  then show ?case by simp
next
  case (Cons e es)
  let ?h0 = "filter (claims sh e) ints"
  let ?ints' = "filter (\<lambda>r. \<not> claims sh e r) ints"
  from Cons.prems have "assign_holes sh es ?ints' (bits @ [ShellHoles e ?h0]) = Inr (bits', orphans)"
    by (simp add: slurp_all)
  from Cons.IH [OF this]
  have "mset (concat (map bit_holes bits')) + mset orphans
      = mset (concat (map bit_holes bits)) + (mset ?h0 + mset ?ints')"
    by simp
  also have "mset ?h0 + mset ?ints' = mset ints"
    by simp
  finally show ?case .
qed

lemma invert_loop_Geom:
  "\<exists>gs. invert_loop sh b (x3, y3, x4, y4) rs bits = bits @ map Geom gs"
proof (induction rs arbitrary: bits)
  case Nil
  show ?case by simp
next
  case (Cons r rs)
  have A: "\<exists>gs. invert_loop sh b (x3, y3, x4, y4) rs bits = bits @ map Geom gs" for bits
    by (rule Cons.IH)
  have B: "\<exists>gs. invert_loop sh b (x3, y3, x4, y4) rs (bits @ [Geom g]) = bits @ map Geom gs"
    for bits g
  proof -
    from A [of "bits @ [Geom g]"] obtain gs
      where "invert_loop sh b (x3, y3, x4, y4) rs (bits @ [Geom g])
          = (bits @ [Geom g]) @ map Geom gs"
      by blast
    then have "invert_loop sh b (x3, y3, x4, y4) rs (bits @ [Geom g])
        = bits @ map Geom (g # gs)"
      by simp
    then show ?thesis by blast
  qed
  show ?case
    by (simp add: Let_def A B split: prod.splits)
qed

lemma rings_to_multi_polygon_char:
  fixes sh :: "'g shapely"
  defines "exts \<equiv> \<lambda>rings is_ccw. filter (\<lambda>r. ring_is_ccw sh r = is_ccw) rings"
    and "ints \<equiv> \<lambda>rings is_ccw. filter (\<lambda>r. ring_is_ccw sh r \<noteq> is_ccw) rings"
  shows "\<exists>holes.
      rings_to_multi_polygon sh domain rings is_ccw =
        Inr (invert_loop sh domain (pad (bounds sh domain))
               (filter (\<lambda>h. \<forall>k < length (exts rings is_ccw).
                              \<not> claims sh (exts rings is_ccw ! k) h) (ints rings is_ccw))
               (map (\<lambda>(e, hs). ShellHoles e hs) (zip (exts rings is_ccw) holes)))
    \<and> length holes = length (exts rings is_ccw)
    \<and> (\<forall>k < length (exts rings is_ccw). holes ! k =
          filter (\<lambda>h. claims sh (exts rings is_ccw ! k) h
                    \<and> (\<forall>k' < k. \<not> claims sh (exts rings is_ccw ! k') h)) (ints rings is_ccw))"
proof -
  let ?E = "exts rings is_ccw" and ?I = "ints rings is_ccw"
  have c: "classify (ring_is_ccw sh) rings is_ccw [] [] = (?E, ?I)"
    by (simp add: classify_filter exts_def ints_def)
  from assign_holes_char [of sh ?E ?I "[]"] obtain holes
    where a: "assign_holes sh ?E ?I [] =
       Inr (map (\<lambda>(e, hs). ShellHoles e hs) (zip ?E holes),
            filter (\<lambda>h. \<forall>k < length ?E. \<not> claims sh (?E ! k) h) ?I)"
      and l: "length holes = length ?E"
      and n: "\<forall>k < length ?E. holes ! k =
           filter (\<lambda>h. claims sh (?E ! k) h \<and> (\<forall>k' < k. \<not> claims sh (?E ! k') h)) ?I"
    by auto
  obtain x3 y3 x4 y4 where p: "pad (bounds sh domain) = (x3, y3, x4, y4)"
    by (cases "pad (bounds sh domain)") auto
  from c a p have "rings_to_multi_polygon sh domain rings is_ccw =
        Inr (invert_loop sh domain (pad (bounds sh domain))
               (filter (\<lambda>h. \<forall>k < length ?E. \<not> claims sh (?E ! k) h) ?I)
               (map (\<lambda>(e, hs). ShellHoles e hs) (zip ?E holes)))"
    by (simp add: rings_to_multi_polygon_def Let_def)
  with l n show ?thesis by blast
qed

lemmas assemble_eval = example_shapely_def square_cw_def square_ccw_def list_remove_def
  rings_to_multi_polygon_def pad_def clockwise_def counter_clockwise_def Let_def

lemma zip_holes:
  "length holes = length exts \<Longrightarrow>
     concat (map bit_holes (map (\<lambda>(e, hs). ShellHoles e hs) (zip exts holes))) = concat holes"
proof (induction exts arbitrary: holes)
  case Nil
  then show ?case by simp
next
  case (Cons e es)
  then show ?case by (cases holes) auto
qed

text \<open>
  Claim C7. The hole assignment returns without an error. The holes of the exterior ring
  number \<open>k\<close> are the hole candidates, in their order, that it takes (its polygon
  contains or else crosses them) and that no exterior ring before it takes; the left-over
  rings are the candidates that no exterior ring takes. Every candidate is therefore a
  hole of one exterior ring or left over, and never both: the holes of all parts and the
  left-over rings together are the candidates, each as often as it was given. The
  inversion runs over the left-over rings only.
\<close>

theorem C7_hole_assignment:
  fixes sh :: "'g shapely"
  shows "\<exists>holes orphans.
      assign_holes sh exterior_rings interior_rings [] =
        Inr (map (\<lambda>(e, hs). ShellHoles e hs) (zip exterior_rings holes), orphans)
    \<and> length holes = length exterior_rings
    \<and> (\<forall>k < length exterior_rings. holes ! k =
          filter (\<lambda>h. claims sh (exterior_rings ! k) h
                    \<and> (\<forall>k' < k. \<not> claims sh (exterior_rings ! k') h)) interior_rings)
    \<and> orphans =
          filter (\<lambda>h. \<forall>k < length exterior_rings. \<not> claims sh (exterior_rings ! k) h)
            interior_rings
    \<and> mset (concat holes) + mset orphans = mset interior_rings
    \<and> (exterior_rings = filter (\<lambda>r. ring_is_ccw sh r = is_ccw) rings
         \<and> interior_rings = filter (\<lambda>r. ring_is_ccw sh r \<noteq> is_ccw) rings \<longrightarrow>
       rings_to_multi_polygon sh domain rings is_ccw =
         Inr (invert_loop sh domain (pad (bounds sh domain)) orphans
                (map (\<lambda>(e, hs). ShellHoles e hs) (zip exterior_rings holes))))"
proof -
  let ?E = exterior_rings and ?I = interior_rings
  from assign_holes_char [of sh ?E ?I "[]"] obtain holes
    where a: "assign_holes sh ?E ?I [] =
       Inr (map (\<lambda>(e, hs). ShellHoles e hs) (zip ?E holes),
            filter (\<lambda>h. \<forall>k < length ?E. \<not> claims sh (?E ! k) h) ?I)"
      and l: "length holes = length ?E"
      and n: "\<forall>k < length ?E. holes ! k =
           filter (\<lambda>h. claims sh (?E ! k) h \<and> (\<forall>k' < k. \<not> claims sh (?E ! k') h)) ?I"
    by auto
  let ?O = "filter (\<lambda>h. \<forall>k < length ?E. \<not> claims sh (?E ! k) h) ?I"
  from l have z: "concat (map bit_holes (map (\<lambda>(e, hs). ShellHoles e hs) (zip ?E holes)))
      = concat holes"
    by (rule zip_holes)
  from assign_holes_mset [OF a] have m: "mset (concat holes) + mset ?O = mset ?I"
    unfolding z by simp
  have r: "rings_to_multi_polygon sh domain rings is_ccw =
         Inr (invert_loop sh domain (pad (bounds sh domain)) ?O
                (map (\<lambda>(e, hs). ShellHoles e hs) (zip ?E holes)))"
    if "?E = filter (\<lambda>r. ring_is_ccw sh r = is_ccw) rings
         \<and> ?I = filter (\<lambda>r. ring_is_ccw sh r \<noteq> is_ccw) rings"
  proof -
    from that have c: "classify (ring_is_ccw sh) rings is_ccw [] [] = (?E, ?I)"
      by (simp add: classify_filter)
    obtain x3 y3 x4 y4 where p: "pad (bounds sh domain) = (x3, y3, x4, y4)"
      by (cases "pad (bounds sh domain)") auto
    from c a p show ?thesis
      by (simp add: rings_to_multi_polygon_def Let_def)
  qed
  show ?thesis
  proof (rule exI [of _ holes], rule exI [of _ ?O], intro conjI)
    show "assign_holes sh ?E ?I [] = Inr (map (\<lambda>(e, hs). ShellHoles e hs) (zip ?E holes), ?O)"
      by (rule a)
    show "length holes = length ?E" by (rule l)
    show "\<forall>k < length ?E. holes ! k =
           filter (\<lambda>h. claims sh (?E ! k) h \<and> (\<forall>k' < k. \<not> claims sh (?E ! k') h)) ?I"
      by (rule n)
    show "?O = ?O" by (rule refl)
    show "mset (concat holes) + mset ?O = mset ?I" by (rule m)
    show "?E = filter (\<lambda>r. ring_is_ccw sh r = is_ccw) rings
         \<and> ?I = filter (\<lambda>r. ring_is_ccw sh r \<noteq> is_ccw) rings \<longrightarrow>
       rings_to_multi_polygon sh domain rings is_ccw =
         Inr (invert_loop sh domain (pad (bounds sh domain)) ?O
                (map (\<lambda>(e, hs). ShellHoles e hs) (zip ?E holes)))"
      using r by (intro impI)
  qed
qed

theorem C7_hole_assignment_witness:
  "assign_holes example_shapely [square_ccw 0 3, square_ccw 0 10]
      [square_cw 1 2, square_cw 20 21, square_cw 4 5] []
    = Inr ([ShellHoles (square_ccw 0 3) [square_cw 1 2],
            ShellHoles (square_ccw 0 10) [square_cw 4 5]], [square_cw 20 21])
   \<and> (\<exists>holes orphans.
        assign_holes example_shapely [square_ccw 0 3, square_ccw 0 10]
            [square_cw 1 2, square_cw 20 21, square_cw 4 5] []
          = Inr (map (\<lambda>(e, hs). ShellHoles e hs)
                   (zip [square_ccw 0 3, square_ccw 0 10] holes), orphans)
      \<and> mset (concat holes) + mset orphans
          = mset [square_cw 1 2, square_cw 20 21, square_cw 4 5])"
proof -
  have "assign_holes example_shapely [square_ccw 0 3, square_ccw 0 10]
      [square_cw 1 2, square_cw 20 21, square_cw 4 5] []
    = Inr ([ShellHoles (square_ccw 0 3) [square_cw 1 2],
            ShellHoles (square_ccw 0 10) [square_cw 4 5]], [square_cw 20 21])"
    by (simp add: assemble_eval)
  moreover from C7_hole_assignment [of example_shapely "[square_ccw 0 3, square_ccw 0 10]"
      "[square_cw 1 2, square_cw 20 21, square_cw 4 5]" True "[]" EmptyRegion]
  have "\<exists>holes orphans.
        assign_holes example_shapely [square_ccw 0 3, square_ccw 0 10]
            [square_cw 1 2, square_cw 20 21, square_cw 4 5] []
          = Inr (map (\<lambda>(e, hs). ShellHoles e hs)
                   (zip [square_ccw 0 3, square_ccw 0 10] holes), orphans)
      \<and> mset (concat holes) + mset orphans
          = mset [square_cw 1 2, square_cw 20 21, square_cw 4 5]"
  proof (elim exE conjE)
    fix holes orphans
    assume "assign_holes example_shapely [square_ccw 0 3, square_ccw 0 10]
            [square_cw 1 2, square_cw 20 21, square_cw 4 5] []
          = Inr (map (\<lambda>(e, hs). ShellHoles e hs)
                   (zip [square_ccw 0 3, square_ccw 0 10] holes), orphans)"
      and "mset (concat holes) + mset orphans
          = mset [square_cw 1 2, square_cw 20 21, square_cw 4 5]"
    then show ?thesis by (intro exI conjI)
  qed
  ultimately show ?thesis by (rule conjI)
qed

text \<open>
  Claim C6, as amended. A ring is an exterior candidate exactly when its orientation is
  \<open>is_ccw\<close> and a hole candidate exactly when it is not; the assembler returns without an
  error, and in every part that it builds from an exterior candidate the exterior has the
  orientation \<open>is_ccw\<close> and every hole the opposite one.
\<close>

theorem C6_orientation:
  fixes sh :: "'g shapely"
  shows "classify (ring_is_ccw sh) rings is_ccw [] [] =
           (filter (\<lambda>r. ring_is_ccw sh r = is_ccw) rings,
            filter (\<lambda>r. ring_is_ccw sh r \<noteq> is_ccw) rings)
       \<and> (\<exists>polygon_bits.
            rings_to_multi_polygon sh domain rings is_ccw = Inr polygon_bits
          \<and> (\<forall>e hs. ShellHoles e hs \<in> set polygon_bits \<longrightarrow>
                ring_is_ccw sh e = is_ccw \<and> (\<forall>h \<in> set hs. ring_is_ccw sh h = (\<not> is_ccw))))"
proof -
  let ?E = "filter (\<lambda>r. ring_is_ccw sh r = is_ccw) rings"
  let ?I = "filter (\<lambda>r. ring_is_ccw sh r \<noteq> is_ccw) rings"
  have c: "classify (ring_is_ccw sh) rings is_ccw [] [] = (?E, ?I)"
    by (simp add: classify_filter)
  from rings_to_multi_polygon_char [of sh domain rings is_ccw] obtain holes
    where r: "rings_to_multi_polygon sh domain rings is_ccw =
        Inr (invert_loop sh domain (pad (bounds sh domain))
               (filter (\<lambda>h. \<forall>k < length ?E. \<not> claims sh (?E ! k) h) ?I)
               (map (\<lambda>(e, hs). ShellHoles e hs) (zip ?E holes)))"
      and l: "length holes = length ?E"
      and n: "\<forall>k < length ?E. holes ! k =
          filter (\<lambda>h. claims sh (?E ! k) h \<and> (\<forall>k' < k. \<not> claims sh (?E ! k') h)) ?I"
    by blast
  obtain x3 y3 x4 y4 where p: "pad (bounds sh domain) = (x3, y3, x4, y4)"
    by (cases "pad (bounds sh domain)") auto
  from invert_loop_Geom [of sh domain x3 y3 x4 y4
      "filter (\<lambda>h. \<forall>k < length ?E. \<not> claims sh (?E ! k) h) ?I"
      "map (\<lambda>(e, hs). ShellHoles e hs) (zip ?E holes)"]
  obtain gs
    where "invert_loop sh domain (x3, y3, x4, y4)
               (filter (\<lambda>h. \<forall>k < length ?E. \<not> claims sh (?E ! k) h) ?I)
               (map (\<lambda>(e, hs). ShellHoles e hs) (zip ?E holes))
          = map (\<lambda>(e, hs). ShellHoles e hs) (zip ?E holes) @ map Geom gs"
    by blast
  with p have g: "invert_loop sh domain (pad (bounds sh domain))
               (filter (\<lambda>h. \<forall>k < length ?E. \<not> claims sh (?E ! k) h) ?I)
               (map (\<lambda>(e, hs). ShellHoles e hs) (zip ?E holes))
          = map (\<lambda>(e, hs). ShellHoles e hs) (zip ?E holes) @ map Geom gs"
    by simp
  have ok: "ring_is_ccw sh e = is_ccw \<and> (\<forall>h \<in> set hs. ring_is_ccw sh h = (\<not> is_ccw))"
    if "ShellHoles e hs \<in> set (map (\<lambda>(e, hs). ShellHoles e hs) (zip ?E holes) @ map Geom gs)"
    for e hs
  proof -
    from that have "(e, hs) \<in> set (zip ?E holes)" by auto
    then obtain k where k: "k < length ?E" "e = ?E ! k" "hs = holes ! k"
      using l by (auto simp: in_set_zip)
    from k(1) have "?E ! k \<in> set ?E" by (rule nth_mem)
    with k(2) have "e \<in> set ?E" by (simp only:)
    then have e: "ring_is_ccw sh e = is_ccw" by simp
    from k n have "hs = filter (\<lambda>h. claims sh (?E ! k) h
        \<and> (\<forall>k' < k. \<not> claims sh (?E ! k') h)) ?I"
      by (simp only:)
    then have "set hs \<subseteq> set ?I" by auto
    then have "\<forall>h \<in> set hs. ring_is_ccw sh h = (\<not> is_ccw)" by auto
    with e show ?thesis by simp
  qed
  from r g have r': "rings_to_multi_polygon sh domain rings is_ccw =
      Inr (map (\<lambda>(e, hs). ShellHoles e hs) (zip ?E holes) @ map Geom gs)"
    by (simp only:)
  show ?thesis
  proof (intro conjI)
    show "classify (ring_is_ccw sh) rings is_ccw [] [] = (?E, ?I)" by (rule c)
    show "\<exists>polygon_bits.
            rings_to_multi_polygon sh domain rings is_ccw = Inr polygon_bits
          \<and> (\<forall>e hs. ShellHoles e hs \<in> set polygon_bits \<longrightarrow>
                ring_is_ccw sh e = is_ccw \<and> (\<forall>h \<in> set hs. ring_is_ccw sh h = (\<not> is_ccw)))"
    proof (rule exI, rule conjI)
      show "rings_to_multi_polygon sh domain rings is_ccw =
          Inr (map (\<lambda>(e, hs). ShellHoles e hs) (zip ?E holes) @ map Geom gs)"
        by (rule r')
      show "\<forall>e hs. ShellHoles e hs
            \<in> set (map (\<lambda>(e, hs). ShellHoles e hs) (zip ?E holes) @ map Geom gs) \<longrightarrow>
          ring_is_ccw sh e = is_ccw \<and> (\<forall>h \<in> set hs. ring_is_ccw sh h = (\<not> is_ccw))"
        using ok by (intro allI impI)
    qed
  qed
qed

theorem C6_orientation_witness:
  "rings_to_multi_polygon example_shapely (Region (square_cw 0 4) [])
      [square_ccw 0 3, square_cw 1 2] True
    = Inr [ShellHoles (square_ccw 0 3) [square_cw 1 2]]
   \<and> ring_is_ccw example_shapely (square_ccw 0 3) = True
   \<and> ring_is_ccw example_shapely (square_cw 1 2) = (\<not> True)"
proof -
  have a: "rings_to_multi_polygon example_shapely (Region (square_cw 0 4) [])
      [square_ccw 0 3, square_cw 1 2] True
    = Inr [ShellHoles (square_ccw 0 3) [square_cw 1 2]]"
    by (simp add: assemble_eval)
  from C6_orientation [of example_shapely "[square_ccw 0 3, square_cw 1 2]" True
      "Region (square_cw 0 4) []"]
  obtain polygon_bits
    where b: "rings_to_multi_polygon example_shapely (Region (square_cw 0 4) [])
        [square_ccw 0 3, square_cw 1 2] True = Inr polygon_bits"
      and c: "\<forall>e hs. ShellHoles e hs \<in> set polygon_bits \<longrightarrow>
          ring_is_ccw example_shapely e = True
          \<and> (\<forall>h \<in> set hs. ring_is_ccw example_shapely h = (\<not> True))"
    by (elim conjE exE)
  from a b have "ShellHoles (square_ccw 0 3) [square_cw 1 2] \<in> set polygon_bits"
    by simp
  with c have "ring_is_ccw example_shapely (square_ccw 0 3) = True
      \<and> (\<forall>h \<in> set [square_cw 1 2]. ring_is_ccw example_shapely h = (\<not> True))"
    by (elim allE impE)
  with a show ?thesis by simp
qed

text \<open>
  The claim as it is written also covers the parts made by inverting a left-over ring.
  Such a part is the geometry that the library's \<open>intersection\<close> returns, and the assembler
  appends it as it is. The same left-over square, given clockwise with \<open>is_ccw\<close> true and
  counter-clockwise with \<open>is_ccw\<close> false, yields the same part both times, so the
  orientation of its rings cannot follow \<open>is_ccw\<close>: its exterior is clockwise and its hole
  counter-clockwise, which contradicts the claim for \<open>is_ccw\<close> true.
\<close>

theorem C6_inverted_part_counterexample:
  "rings_to_multi_polygon example_shapely (Region (square_cw 0 4) []) [square_cw 1 2] True
     = Inr [Geom (Region (square_cw 0 4) [square_ccw 1 2])]
   \<and> rings_to_multi_polygon example_shapely (Region (square_cw 0 4) []) [square_ccw 1 2] False
     = Inr [Geom (Region (square_cw 0 4) [square_ccw 1 2])]
   \<and> ring_is_ccw example_shapely (square_cw 0 4) \<noteq> True
   \<and> ring_is_ccw example_shapely (square_ccw 1 2) \<noteq> (\<not> True)"
  by (simp add: assemble_eval)

section \<open>Properties of the ring projector\<close>

lemma within_tolerance_allclose: "within_tolerance tol a b \<Longrightarrow> allclose a b tol"
proof -
  assume w: "within_tolerance tol a b"
  have "0 \<le> 0.00001 * \<bar>fst b\<bar>" "0 \<le> 0.00001 * \<bar>snd b\<bar>" by simp_all
  with w show ?thesis
    unfolding within_tolerance_def allclose_def by linarith
qed

lemma joins_nonempty:
  "ls ! i \<noteq> [] \<Longrightarrow> ls ! j \<noteq> [] \<Longrightarrow>
     joins atol ls i j = Inr (i \<noteq> j \<and> allclose (hd (ls ! i)) (last (ls ! j)) atol)"
  by (cases "ls ! i") (auto simp: joins_def)

lemma scan_j_None:
  "scan_j atol ls i j0 = Inr None \<Longrightarrow> j0 \<le> j \<Longrightarrow> j < length ls \<Longrightarrow>
     joins atol ls i j = Inr False"
proof (induction atol ls i j0 rule: scan_j.induct)
  case (1 atol ls i j0)
  from "1.prems" have lt: "j0 < length ls" by simp
  from "1.prems"(1) lt obtain b where b: "joins atol ls i j0 = Inr b"
    by (subst (asm) scan_j.simps) (auto split: sum.splits)
  from "1.prems"(1) lt b have f: "b = False"
    by (subst (asm) scan_j.simps) (auto split: bool.splits)
  from "1.prems"(1) lt b f have n: "scan_j atol ls i (j0 + 1) = Inr None"
    by (subst (asm) scan_j.simps) simp
  show ?case
  proof (cases "j = j0")
    case True
    with b f show ?thesis by simp
  next
    case False
    with "1.prems" have "j0 + 1 \<le> j" by simp
    with "1.IH" [OF lt b f n] "1.prems" show ?thesis by simp
  qed
qed

lemma scan_j_total:
  "\<forall>l \<in> set ls. l \<noteq> [] \<Longrightarrow> i < length ls \<Longrightarrow> \<exists>r. scan_j atol ls i j0 = Inr r"
proof (induction atol ls i j0 rule: scan_j.induct)
  case (1 atol ls i j0)
  show ?case
  proof (cases "j0 < length ls")
    case False
    then show ?thesis by (subst scan_j.simps) simp
  next
    case True
    with "1.prems" have "ls ! i \<noteq> []" "ls ! j0 \<noteq> []" by simp_all
    then have j: "joins atol ls i j0
        = Inr (i \<noteq> j0 \<and> allclose (hd (ls ! i)) (last (ls ! j0)) atol)"
      by (rule joins_nonempty)
    show ?thesis
    proof (cases "i \<noteq> j0 \<and> allclose (hd (ls ! i)) (last (ls ! j0)) atol")
      case True
      with j \<open>j0 < length ls\<close> show ?thesis by (subst scan_j.simps) simp
    next
      case False
      with j have j': "joins atol ls i j0 = Inr False" by simp
      from "1.IH" [OF True j' refl "1.prems"] obtain r
        where "scan_j atol ls i (j0 + 1) = Inr r" by blast
      with j' True show ?thesis by (subst scan_j.simps) simp
    qed
  qed
qed

lemma mset_del_at: "n < length xs \<Longrightarrow> mset (del_at n xs) = mset xs - {#xs ! n#}"
proof -
  assume "n < length xs"
  then have "xs = take n xs @ xs ! n # drop (Suc n) xs"
    by (rule id_take_nth_drop)
  then have "mset xs = mset (take n xs @ xs ! n # drop (Suc n) xs)"
    by (rule arg_cong)
  also have "\<dots> = mset (take n xs) + mset (drop (Suc n) xs) + {#xs ! n#}"
    by simp
  finally show ?thesis by (simp add: del_at_def)
qed

lemma nth_del_at:
  "(del_at n xs) ! k = (if k < n then xs ! k else xs ! Suc k)"
  if "n < length xs" "k < length xs - 1"
  using that by (auto simp: del_at_def nth_append min_def)

lemma set_del_at:
  assumes "n < length xs"
  shows "set (del_at n xs) = {xs ! m | m. m < length xs \<and> m \<noteq> n}"
proof (intro set_eqI iffI)
  fix l
  assume "l \<in> set (del_at n xs)"
  then obtain k where k: "k < length (del_at n xs)" "l = del_at n xs ! k"
    by (auto simp: in_set_conv_nth)
  with assms have k': "k < length xs - 1" by simp
  show "l \<in> {xs ! m | m. m < length xs \<and> m \<noteq> n}"
  proof (cases "k < n")
    case True
    with k k' assms have "l = xs ! k" "k < length xs" "k \<noteq> n"
      by (simp_all add: nth_del_at)
    then show ?thesis by blast
  next
    case False
    with k k' assms have "l = xs ! Suc k" "Suc k < length xs" "Suc k \<noteq> n"
      by (simp_all add: nth_del_at)
    then show ?thesis by blast
  qed
next
  fix l
  assume "l \<in> {xs ! m | m. m < length xs \<and> m \<noteq> n}"
  then obtain m where m: "m < length xs" "m \<noteq> n" "l = xs ! m" by blast
  show "l \<in> set (del_at n xs)"
  proof (cases "m < n")
    case True
    with m assms have "del_at n xs ! m = l" "m < length (del_at n xs)"
      by (simp_all add: nth_del_at)
    then show ?thesis by (metis nth_mem)
  next
    case False
    with m have "n < m" by simp
    then have "\<not> m - 1 < n" and "Suc (m - 1) = m" by simp_all
    with m assms have "del_at n xs ! (m - 1) = l" "m - 1 < length (del_at n xs)"
      by (simp_all add: nth_del_at)
    then show ?thesis by (metis nth_mem)
  qed
qed

lemma nth_others:
  "k < length xs \<Longrightarrow> m < length xs \<Longrightarrow> m \<noteq> k \<Longrightarrow> xs ! m \<in># mset xs - {#xs ! k#}"
proof -
  assume a: "k < length xs" "m < length xs" "m \<noteq> k"
  then have "xs ! m \<in> set (del_at k xs)"
    by (auto simp: set_del_at)
  then have "xs ! m \<in># mset (del_at k xs)" by simp
  with a(1) show ?thesis by (simp add: mset_del_at)
qed

lemma others_nth:
  "k < length xs \<Longrightarrow> l \<in># mset xs - {#xs ! k#} \<Longrightarrow> \<exists>m < length xs. m \<noteq> k \<and> l = xs ! m"
proof -
  assume a: "k < length xs" "l \<in># mset xs - {#xs ! k#}"
  then have "l \<in># mset (del_at k xs)" by (simp add: mset_del_at)
  then have "l \<in> set (del_at k xs)" by simp
  with a(1) show ?thesis by (auto simp: set_del_at)
qed

lemma in_fused_others:
  "l \<in># (M - {#a#} - {#b#} + {#c#}) - {#x#} \<Longrightarrow> l = c \<or> l \<in># M - {#x#}"
  by (auto simp: in_diff_count split: if_splits intro: count_inI)

lemma fuse_loop_correct:
  "\<forall>l \<in> set ls. l \<noteq> [] \<Longrightarrow> \<forall>x \<in> set (take i ls). settled atol (mset ls) x \<Longrightarrow>
     \<exists>ls' m. fuse_loop atol ls i am = Inr (ls', m)
       \<and> rtranclp (fuses atol) ls ls'
       \<and> (\<forall>l \<in> set ls'. l \<noteq> [])
       \<and> (\<forall>x \<in> set ls'. settled atol (mset ls') x)"
proof (induction atol ls i am rule: fuse_loop.induct)
  case (1 atol ls i am)
  note ne = "1.prems"(1) and inv = "1.prems"(2)
  show ?case
  proof (cases "i < length ls")
    case False
    then have "fuse_loop atol ls i am = Inr (ls, am)"
      by (subst fuse_loop.simps) simp
    moreover from False inv have "\<forall>x \<in> set ls. settled atol (mset ls) x" by simp
    ultimately show ?thesis using ne by blast
  next
    case True
    from scan_j_total [OF ne True] obtain r where r: "scan_j atol ls i 0 = Inr r"
      by blast
    show ?thesis
    proof (cases r)
      case None
      have si: "settled atol (mset ls) (ls ! i)"
        unfolding settled_def
      proof
        fix l
        assume "l \<in># mset ls - {#ls ! i#}"
        from others_nth [OF True this] obtain m
          where m: "m < length ls" "m \<noteq> i" "l = ls ! m"
          by blast
        from r None m(1) have "joins atol ls i m = Inr False"
          by (intro scan_j_None [of atol ls i 0]) simp_all
        moreover from ne True m(1) have "ls ! i \<noteq> []" "ls ! m \<noteq> []" by simp_all
        ultimately show "\<not> allclose (hd (ls ! i)) (last l) atol"
          using m by (simp add: joins_nonempty)
      qed
      from True have "take (i + 1) ls = take i ls @ [ls ! i]"
        by (simp add: take_Suc_conv_app_nth)
      with inv si have inv': "\<forall>x \<in> set (take (i + 1) ls). settled atol (mset ls) x"
        by simp
      from "1.IH"(1) [OF True r None ne inv'] obtain ls' m
        where "fuse_loop atol ls (i + 1) am = Inr (ls', m)"
          and "rtranclp (fuses atol) ls ls'"
          and "\<forall>l \<in> set ls'. l \<noteq> []"
          and "\<forall>x \<in> set ls'. settled atol (mset ls') x"
        by blast
      moreover from True r None
      have "fuse_loop atol ls i am = fuse_loop atol ls (i + 1) am"
        by (subst fuse_loop.simps) simp
      ultimately show ?thesis by auto
    next
      case (Some j)
      from r Some have j: "j < length ls" "j \<noteq> i" and jt: "joins atol ls i j = Inr True"
        using scan_j_Some by blast+
      from ne True j(1) have nei: "ls ! i \<noteq> []" and nej: "ls ! j \<noteq> []" by simp_all
      with jt j(2) have close: "allclose (hd (ls ! i)) (last (ls ! j)) atol"
        by (simp add: joins_nonempty)
      define i' where "i' = (if j < i then j else i)"
      define j' where "j' = (if j < i then i else j)"
      define combo where "combo = ls ! j @ tl (ls ! i)"
      define ls1 where "ls1 = del_at i' (del_at j' ls) @ [combo]"
      from j True have ij: "i' < j'" "j' < length ls" "i' \<le> i"
        by (auto simp: i'_def j'_def)
      from ij have "mset (del_at i' (del_at j' ls)) = mset ls - {#ls ! j'#} - {#ls ! i'#}"
        by (simp add: mset_del_at nth_del_at)
      also have "\<dots> = mset ls - {#ls ! i#} - {#ls ! j#}"
        by (simp add: i'_def j'_def add_mset_commute)
      finally have ms: "mset ls1 = mset ls - {#ls ! i#} - {#ls ! j#} + {#combo#}"
        by (simp add: ls1_def)
      from True j close ms have step: "fuses atol ls ls1"
        unfolding fuses_def combo_def by blast
      have ne1: "\<forall>l \<in> set ls1. l \<noteq> []"
      proof
        fix l
        assume "l \<in> set ls1"
        then have "l \<in># mset ls1" by simp
        then have "l = combo \<or> l \<in># mset ls"
          unfolding ms by (auto dest: in_diffD)
        with ne nej show "l \<noteq> []" by (auto simp: combo_def)
      qed
      from ij have tk: "take i' ls1 = take i' ls"
        by (simp add: ls1_def del_at_def min_def)
      have lc: "last combo = last (ls ! i) \<or> last combo = last (ls ! j)"
        by (cases "tl (ls ! i) = []") (simp_all add: combo_def last_tl)
      have inv1: "\<forall>x \<in> set (take i' ls1). settled atol (mset ls1) x"
      proof
        fix x
        assume "x \<in> set (take i' ls1)"
        with tk have "x \<in> set (take i' ls)" by simp
        then obtain k where k: "k < i'" "k < length ls" "x = ls ! k"
          by (auto simp: in_set_conv_nth)
        with ij have "x \<in> set (take i ls)"
          by (auto simp: in_set_conv_nth intro!: exI [of _ k])
        with inv have sx: "settled atol (mset ls) x" by simp
        from k ij j True have "k \<noteq> i" "k \<noteq> j"
          by (auto simp: i'_def split: if_splits)
        with k True j have oi: "ls ! i \<in># mset ls - {#x#}" and oj: "ls ! j \<in># mset ls - {#x#}"
          by (simp_all add: nth_others)
        show "settled atol (mset ls1) x"
          unfolding settled_def
        proof
          fix l
          assume "l \<in># mset ls1 - {#x#}"
          then have "l = combo \<or> l \<in># mset ls - {#x#}"
            unfolding ms by (rule in_fused_others)
          then show "\<not> allclose (hd x) (last l) atol"
          proof
            assume "l = combo"
            with lc oi oj sx show ?thesis
              unfolding settled_def by auto
          next
            assume "l \<in># mset ls - {#x#}"
            with sx show ?thesis
              unfolding settled_def by auto
          qed
        qed
      qed
      from "1.IH"(2) [OF True r Some refl refl refl refl refl]
      have "\<lbrakk>\<forall>l \<in> set ls1. l \<noteq> []; \<forall>x \<in> set (take i' ls1). settled atol (mset ls1) x\<rbrakk>
          \<Longrightarrow> \<exists>ls' m. fuse_loop atol ls1 i' True = Inr (ls', m)
            \<and> rtranclp (fuses atol) ls1 ls'
            \<and> (\<forall>l \<in> set ls'. l \<noteq> [])
            \<and> (\<forall>x \<in> set ls'. settled atol (mset ls') x)"
        unfolding ls1_def i'_def j'_def combo_def .
      from this [OF ne1 inv1] obtain ls' m
        where res: "fuse_loop atol ls1 i' True = Inr (ls', m)"
          and rt: "rtranclp (fuses atol) ls1 ls'"
          and ne': "\<forall>l \<in> set ls'. l \<noteq> []"
          and st': "\<forall>x \<in> set ls'. settled atol (mset ls') x"
        by blast
      from True r Some have "fuse_loop atol ls i am = fuse_loop atol ls1 i' True"
        by (subst fuse_loop.simps) (simp add: Let_def ls1_def i'_def j'_def combo_def)
      with res have "fuse_loop atol ls i am = Inr (ls', m)" by simp
      moreover from step rt have "rtranclp (fuses atol) ls ls'"
        by (rule converse_rtranclp_into_rtranclp)
      ultimately show ?thesis using ne' st' by blast
    qed
  qed
qed

text \<open>
  Claim C2. On line strings that all have a coordinate, the fusion loop returns. What it
  returns is reached from the clipper's line strings by fusions, each of which replaces two
  distinct line strings \<open>i\<close> and \<open>j\<close>, the first coordinate of \<open>i\<close> close to the last
  of \<open>j\<close>, by the coordinates of \<open>j\<close> followed by those of \<open>i\<close> without its first; and
  among the line strings that are returned no two distinct ones are left whose ends pass
  the test of the loop, in particular none whose ends are within the threshold. Two ends
  within the threshold always pass the test, which adds numpy's relative term to it.
\<close>

theorem C2_fusion:
  assumes "\<forall>l \<in> set mls. l \<noteq> []"
  shows "\<exists>line_strings any_modified.
           fuse_loop (threshold x_limits y_limits) mls 0 False = Inr (line_strings, any_modified)
         \<and> rtranclp (fuses (threshold x_limits y_limits)) mls line_strings
         \<and> (\<forall>i j. i < length line_strings \<and> j < length line_strings \<and> i \<noteq> j \<longrightarrow>
               \<not> allclose (hd (line_strings ! i)) (last (line_strings ! j))
                   (threshold x_limits y_limits)
             \<and> \<not> within_tolerance (threshold x_limits y_limits)
                   (hd (line_strings ! i)) (last (line_strings ! j)))"
proof -
  let ?t = "threshold x_limits y_limits"
  from fuse_loop_correct [OF assms, of 0 ?t False] obtain ls' m
    where r: "fuse_loop ?t mls 0 False = Inr (ls', m)"
      and rt: "rtranclp (fuses ?t) mls ls'"
      and st: "\<forall>x \<in> set ls'. settled ?t (mset ls') x"
    by auto
  have "\<not> allclose (hd (ls' ! i)) (last (ls' ! j)) ?t
      \<and> \<not> within_tolerance ?t (hd (ls' ! i)) (last (ls' ! j))"
    if "i < length ls' \<and> j < length ls' \<and> i \<noteq> j" for i j
  proof -
    from that have "ls' ! j \<in># mset ls' - {#ls' ! i#}"
      by (simp add: nth_others)
    moreover from that st have "settled ?t (mset ls') (ls' ! i)" by simp
    ultimately have "\<not> allclose (hd (ls' ! i)) (last (ls' ! j)) ?t"
      unfolding settled_def by blast
    then show ?thesis
      using within_tolerance_allclose by blast
  qed
  with r rt show ?thesis by blast
qed

lemmas fuse_eval = fuse_loop.simps scan_j.simps joins_def allclose_def threshold_def
  del_at_def Let_def

theorem C2_fusion_witness:
  "[(0, 0), (1, 0 :: real)] \<noteq> [] \<and> [(5, 5), (6, 5 :: real)] \<noteq> [] \<and> [(2, 2), (0, 0 :: real)] \<noteq> []
   \<and> fuse_loop (threshold (-10, 10) (-10, 10))
        [[(0, 0), (1, 0)], [(5, 5), (6, 5)], [(2, 2), (0, 0)]] 0 False
      = Inr ([[(5, 5), (6, 5)], [(2, 2), (0, 0), (1, 0)]], True)
   \<and> (\<exists>line_strings any_modified.
         fuse_loop (threshold (-10, 10) (-10, 10))
           [[(0, 0), (1, 0)], [(5, 5), (6, 5)], [(2, 2), (0, 0)]] 0 False
         = Inr (line_strings, any_modified)
       \<and> rtranclp (fuses (threshold (-10, 10) (-10, 10)))
           [[(0, 0), (1, 0)], [(5, 5), (6, 5)], [(2, 2), (0, 0)]] line_strings)"
proof -
  have a: "\<forall>l \<in> set [[(0, 0), (1, 0 :: real)], [(5, 5), (6, 5)], [(2, 2), (0, 0)]]. l \<noteq> []"
    by simp
  have b: "fuse_loop (threshold (-10, 10) (-10, 10))
        [[(0, 0), (1, 0)], [(5, 5), (6, 5)], [(2, 2), (0, 0)]] 0 False
      = Inr ([[(5, 5), (6, 5)], [(2, 2), (0, 0), (1, 0)]], True)"
    by (simp add: fuse_eval)
  from C2_fusion [OF a, of "(-10, 10)" "(-10, 10)"]
  have "\<exists>line_strings any_modified.
         fuse_loop (threshold (-10, 10) (-10, 10))
           [[(0, 0), (1, 0)], [(5, 5), (6, 5)], [(2, 2), (0, 0)]] 0 False
         = Inr (line_strings, any_modified)
       \<and> rtranclp (fuses (threshold (-10, 10) (-10, 10)))
           [[(0, 0), (1, 0)], [(5, 5), (6, 5)], [(2, 2), (0, 0)]] line_strings"
  proof (elim exE conjE)
    fix line_strings any_modified
    assume "fuse_loop (threshold (-10, 10) (-10, 10))
           [[(0, 0), (1, 0)], [(5, 5), (6, 5)], [(2, 2), (0, 0)]] 0 False
         = Inr (line_strings, any_modified)"
      and "rtranclp (fuses (threshold (-10, 10) (-10, 10)))
           [[(0, 0), (1, 0)], [(5, 5), (6, 5)], [(2, 2), (0, 0)]] line_strings"
    then show ?thesis by (intro exI conjI)
  qed
  with b show ?thesis by simp
qed

subsection \<open>Rings closed by the projection\<close>

lemma ring_loop_filter:
  "ring_loop atol mls rings line_strings =
     (rings @ map (\<lambda>l. LinearRing (butlast l)) (filter (closes_itself atol) mls),
      line_strings @ filter (\<lambda>l. \<not> closes_itself atol l) mls)"
  by (induction mls arbitrary: rings line_strings) (simp_all add: closes_itself_def)

lemma project_rings_closed:
  assumes "\<forall>r \<in> set src_rings. \<exists>p_rings. project_ring r = Inr (p_rings, [])"
  shows "\<exists>rings'. project_rings project_ring src_rings rings multi_lines = Inr (rings', multi_lines)"
  using assms
proof (induction src_rings arbitrary: rings)
  case Nil
  show ?case by simp
next
  case (Cons r rest)
  from Cons.prems obtain p_rings where p: "project_ring r = Inr (p_rings, [])" by auto
  from Cons.prems have "\<forall>r \<in> set rest. \<exists>p_rings. project_ring r = Inr (p_rings, [])" by simp
  from Cons.IH [OF this, of "if p_rings \<noteq> [] then rings @ p_rings else rings"] p
  show ?case by simp
qed

lemma project_linear_ring_partition:
  assumes "project_linear_ring project_linear x_limits y_limits linear_ring src_crs
      = Inr (rings, pool)"
  shows "\<exists>fragments.
      rings = map (\<lambda>l. LinearRing (butlast l))
                (filter (closes_itself (threshold x_limits y_limits)) fragments)
    \<and> pool = filter (\<lambda>l. \<not> closes_itself (threshold x_limits y_limits) l) fragments"
proof -
  let ?t = "threshold x_limits y_limits"
  let ?mls = "project_linear linear_ring src_crs"
  have part: "\<exists>fragments.
      rings = map (\<lambda>l. LinearRing (butlast l)) (filter (closes_itself ?t) fragments)
    \<and> pool = filter (\<lambda>l. \<not> closes_itself ?t l) fragments"
    if rl: "(case ring_loop ?t fragments [] [] of
               (rings, line_strings) \<Rightarrow>
                 Inr (rings, if rings \<noteq> [] then line_strings else fragments))
            = (Inr (rings, pool) :: error + line list \<times> line list)"
    for fragments
  proof -
    from rl have r: "rings = map (\<lambda>l. LinearRing (butlast l))
        (filter (closes_itself ?t) fragments)"
      and p: "pool = (if filter (closes_itself ?t) fragments \<noteq> []
                      then filter (\<lambda>l. \<not> closes_itself ?t l) fragments
                      else fragments)"
      by (auto simp: ring_loop_filter)
    show ?thesis
    proof (cases "filter (closes_itself ?t) fragments = []")
      case False
      with r p show ?thesis by auto
    next
      case True
      then have "filter (\<lambda>l. \<not> closes_itself ?t l) fragments = fragments"
        by (simp add: filter_empty_conv filter_id_conv)
      with True r p show ?thesis by auto
    qed
  qed
  show ?thesis
  proof (cases "length ?mls > 1")
    case False
    with assms show ?thesis
      by (intro part [of ?mls]) (simp add: project_linear_ring_def Let_def)
  next
    case True
    with assms obtain line_strings any_modified
      where f: "fuse_loop ?t ?mls 0 False = Inr (line_strings, any_modified)"
      by (auto simp: project_linear_ring_def Let_def split: sum.splits)
    from assms True f show ?thesis
      by (intro part [of "if any_modified then line_strings else ?mls"])
        (simp add: project_linear_ring_def Let_def)
  qed
qed

text \<open>
  Claim C3. Step 3 turns every line string that passes its test (more than 3 coordinates,
  first and last close) into a ring without the last coordinate and keeps exactly the
  others as line strings, in the loop and in what \<open>_project_linear_ring\<close> returns; a line
  string of more than 3 coordinates whose ends are within the threshold passes the test.
  And where every ring of a polygon leaves no line string, the pool of line strings is
  empty and the polygon is assembled from the rings alone, whatever the stitcher is: it is
  not called.
\<close>

theorem C3_self_closed_rings:
  fixes assemble :: "line list \<Rightarrow> bool \<Rightarrow> error + 'p"
    and project_ring :: "'sr \<Rightarrow> error + line list \<times> line list"
    and project_linear :: "'r \<Rightarrow> 'crs \<Rightarrow> line list"
  shows "ring_loop atol mls [] [] =
           (map (\<lambda>l. LinearRing (butlast l)) (filter (closes_itself atol) mls),
            filter (\<lambda>l. \<not> closes_itself atol l) mls)
       \<and> (length l > 3 \<and> within_tolerance atol (hd l) (last l) \<longrightarrow> closes_itself atol l)
       \<and> (project_linear_ring project_linear x_limits y_limits linear_ring src_crs
             = Inr (rings, pool) \<longrightarrow>
           (\<exists>fragments.
              rings = map (\<lambda>l. LinearRing (butlast l))
                        (filter (closes_itself (threshold x_limits y_limits)) fragments)
            \<and> pool = filter (\<lambda>l. \<not> closes_itself (threshold x_limits y_limits) l) fragments))
       \<and> ((\<forall>r \<in> set (exterior polygon # interiors polygon).
              \<exists>p_rings. project_ring r = Inr (p_rings, [])) \<longrightarrow>
           (\<exists>rings. project_rings project_ring (exterior polygon # interiors polygon) [] []
                = Inr (rings, [])
              \<and> (\<forall>attach. project_polygon_with attach assemble project_ring is_geodetic
                              ring_ccw polygon
                    = assemble rings (if is_geodetic then True else ring_ccw (exterior polygon)))))"
proof (intro conjI impI)
  show "ring_loop atol mls [] [] =
           (map (\<lambda>l. LinearRing (butlast l)) (filter (closes_itself atol) mls),
            filter (\<lambda>l. \<not> closes_itself atol l) mls)"
    by (simp add: ring_loop_filter)
next
  assume "length l > 3 \<and> within_tolerance atol (hd l) (last l)"
  then show "closes_itself atol l"
    by (simp add: closes_itself_def within_tolerance_allclose)
next
  assume "project_linear_ring project_linear x_limits y_limits linear_ring src_crs
      = Inr (rings, pool)"
  then show "\<exists>fragments.
      rings = map (\<lambda>l. LinearRing (butlast l))
                (filter (closes_itself (threshold x_limits y_limits)) fragments)
    \<and> pool = filter (\<lambda>l. \<not> closes_itself (threshold x_limits y_limits) l) fragments"
    by (rule project_linear_ring_partition)
next
  assume "\<forall>r \<in> set (exterior polygon # interiors polygon).
      \<exists>p_rings. project_ring r = Inr (p_rings, [])"
  from project_rings_closed [OF this, of "[]" "[]"] obtain rings
    where r: "project_rings project_ring (exterior polygon # interiors polygon) [] []
        = Inr (rings, [])"
    by blast
  then have "project_polygon_with attach assemble project_ring is_geodetic ring_ccw polygon
      = assemble rings (if is_geodetic then True else ring_ccw (exterior polygon))" for attach
    by (simp add: project_polygon_with_def)
  with r show "\<exists>rings. project_rings project_ring (exterior polygon # interiors polygon) [] []
                = Inr (rings, [])
              \<and> (\<forall>attach. project_polygon_with attach assemble project_ring is_geodetic
                              ring_ccw polygon
                    = assemble rings (if is_geodetic then True else ring_ccw (exterior polygon)))"
    by blast
qed

theorem C3_self_closed_rings_witness:
  "project_linear_ring (\<lambda>(r :: line) (src :: unit). [r]) (-10, 10) (-10, 10) (square_ccw 0 3) ()
     = Inr ([square_ccw 0 3], [])
   \<and> project_polygon_with (\<lambda>mls is_ccw. Inl RuntimeError)
       (rings_to_multi_polygon example_shapely (Region (square_cw 0 4) []))
       (\<lambda>r. project_linear_ring (\<lambda>(r :: line) (src :: unit). [r]) (-10, 10) (-10, 10) r ())
       True (ring_is_ccw example_shapely) \<lparr>exterior = square_ccw 0 3, interiors = []\<rparr>
     = Inr [ShellHoles (square_ccw 0 3) []]"
proof -
  let ?ring = "\<lambda>r. project_linear_ring (\<lambda>(r :: line) (src :: unit). [r]) (-10, 10) (-10, 10) r ()"
  let ?p = "\<lparr>exterior = square_ccw 0 3, interiors = []\<rparr>"
  have a: "?ring (square_ccw 0 3) = Inr ([square_ccw 0 3], [])"
    by (simp add: project_linear_ring_def square_ccw_def allclose_def threshold_def
        LinearRing_def)
  then have h: "\<forall>r \<in> set (exterior ?p # interiors ?p). \<exists>p_rings. ?ring r = Inr (p_rings, [])"
    by simp
  from C3_self_closed_rings [where polygon = ?p and project_ring = ?ring
      and assemble = "rings_to_multi_polygon example_shapely (Region (square_cw 0 4) [])"
      and is_geodetic = True and ring_ccw = "ring_is_ccw example_shapely"
      and atol = 0 and mls = "[]" and l = "[]"
      and project_linear = "\<lambda>(r :: line) (src :: unit). [r]" and x_limits = "(-10, 10)"
      and y_limits = "(-10, 10)" and linear_ring = "square_ccw 0 3" and src_crs = "()"
      and rings = "[square_ccw 0 3]" and pool = "[]"] h
  obtain rings
    where r: "project_rings ?ring (exterior ?p # interiors ?p) [] [] = Inr (rings, [])"
      and w: "\<forall>attach. project_polygon_with attach
          (rings_to_multi_polygon example_shapely (Region (square_cw 0 4) [])) ?ring True
          (ring_is_ccw example_shapely) ?p
        = rings_to_multi_polygon example_shapely (Region (square_cw 0 4) []) rings True"
    by auto
  from r a have "rings = [square_ccw 0 3]" by simp
  moreover have "rings_to_multi_polygon example_shapely (Region (square_cw 0 4) [])
      [square_ccw 0 3] True = Inr [ShellHoles (square_ccw 0 3) []]"
    by (simp add: assemble_eval)
  ultimately show ?thesis using a w by simp
qed

end
